theory Spec2Isabelle
  imports Complex_Main "HOL-Library.Sublist" "HOL-Library.Product_Lexorder"
begin

section \<open>JavaScript strings\<close>

text \<open>
  A JavaScript string is a sequence of UTF-16 code units. A code unit is modelled as a
  natural number; \<open>js\<close> turns an ASCII literal into code units, and the Chinese
  literals of the source are written out as their code units.
\<close>

type_synonym jschar = nat
type_synonym jsstring = "jschar list"

definition js :: "string \<Rightarrow> jsstring" where
  "js s = map of_char s"

text \<open>\<^verbatim>\<open>String.prototype.includes\<close>: the argument occurs somewhere in the string.\<close>

fun startsWith :: "jsstring \<Rightarrow> jsstring \<Rightarrow> bool" where
  "startsWith s [] = True"
| "startsWith [] (p # ps) = False"
| "startsWith (c # cs) (p # ps) = (c = p \<and> startsWith cs ps)"

fun includesStr :: "jsstring \<Rightarrow> jsstring \<Rightarrow> bool" where
  "includesStr [] sub = (sub = [])"
| "includesStr (c # cs) sub = (startsWith (c # cs) sub \<or> includesStr cs sub)"

text \<open>
  \<^verbatim>\<open>String.prototype.trim\<close> removes WhiteSpace and LineTerminator code units from both
  ends: TAB, LF, VT, FF, CR, SP, NBSP, U+1680, U+2000..U+200A, U+2028, U+2029, U+202F,
  U+205F, U+3000 and U+FEFF.
\<close>

definition isWhiteSpace :: "jschar \<Rightarrow> bool" where
  "isWhiteSpace c \<longleftrightarrow>
     c \<in> set [9, 10, 11, 12, 13, 32, 160, 5760, 8232, 8233, 8239, 8287, 12288, 65279]
     \<or> (8192 \<le> c \<and> c \<le> 8202)"

definition trim :: "jsstring \<Rightarrow> jsstring" where
  "trim s = rev (dropWhile isWhiteSpace (rev (dropWhile isWhiteSpace s)))"

section \<open>The moderation filter\<close>

text \<open>
  \<^verbatim>\<open>isForbidden\<close> tests the term against two regular expressions, each an alternation of
  literals under the flag \<^verbatim>\<open>i\<close>:
  five two-character Chinese keywords (politics, violence, pornography, gambling, drugs;
  given below by their code units) and \<^verbatim>\<open>/fuck|shit|bitch/i\<close>.

  Under \<^verbatim>\<open>i\<close> (without \<^verbatim>\<open>u\<close>) two code units match when their canonical forms are
  equal, the canonical form being the upper-case mapping, except that a code unit of 128 or
  more is never mapped to one below 128. The literals here hold ASCII letters and CJK
  ideographs only: an ideograph has no case mapping and is no other code unit's upper case,
  so on these patterns the comparison is the one of ASCII case folding, which
  \<open>canonicalize\<close> performs.
\<close>

definition canonicalize :: "jschar \<Rightarrow> jschar" where
  "canonicalize c = (if 97 \<le> c \<and> c \<le> 122 then c - 32 else c)"

text \<open>A literal matches at the start of the input.\<close>

fun matchLiteral :: "jsstring \<Rightarrow> jsstring \<Rightarrow> bool" where
  "matchLiteral [] s = True"
| "matchLiteral (p # ps) [] = False"
| "matchLiteral (p # ps) (c # cs) = (canonicalize p = canonicalize c \<and> matchLiteral ps cs)"

text \<open>An alternation matches at the start of the input when one of its literals does.\<close>

definition matchAlternation :: "jsstring list \<Rightarrow> jsstring \<Rightarrow> bool" where
  "matchAlternation alts s = list_ex (\<lambda>a. matchLiteral a s) alts"

text \<open>\<^verbatim>\<open>RegExp.prototype.test\<close> (no \<^verbatim>\<open>g\<close> flag): try every start index from 0 on.\<close>

fun regexTest :: "jsstring list \<Rightarrow> jsstring \<Rightarrow> bool" where
  "regexTest alts [] = matchAlternation alts []"
| "regexTest alts (c # cs) = (matchAlternation alts (c # cs) \<or> regexTest alts cs)"

definition forbiddenPatterns :: "jsstring list list" where
  "forbiddenPatterns =
     [ [[25919, 27835], [26292, 21147], [33394, 24773], [36172, 21338], [27602, 21697]],
       [js ''fuck'', js ''shit'', js ''bitch''] ]"

definition isForbidden :: "jsstring \<Rightarrow> bool" where
  "isForbidden t = list_ex (\<lambda>pattern. regexTest pattern t) forbiddenPatterns"

section \<open>Records and the two backends\<close>

record HotSearchItem =
  term' :: jsstring
  score :: int
  lastSearched :: int
  createdAt :: int

definition MAX_ENTRIES :: int where
  "MAX_ENTRIES = 50"

subsection \<open>Array helpers\<close>

text \<open>
  \<^verbatim>\<open>Array.prototype.sort(cmp)\<close> is stable: elements the comparator does not separate keep
  their order. \<open>sortBy\<close> inserts from the right, each element before the first one it
  does not have to follow.
\<close>

fun insertBy :: "('a \<Rightarrow> 'a \<Rightarrow> int) \<Rightarrow> 'a \<Rightarrow> 'a list \<Rightarrow> 'a list" where
  "insertBy cmp x [] = [x]"
| "insertBy cmp x (y # ys) = (if cmp x y \<le> 0 then x # y # ys else y # insertBy cmp x ys)"

definition sortBy :: "('a \<Rightarrow> 'a \<Rightarrow> int) \<Rightarrow> 'a list \<Rightarrow> 'a list" where
  "sortBy cmp xs = foldr (insertBy cmp) xs []"

text \<open>
  \<^verbatim>\<open>xs.slice(0, end)\<close>: a negative \<open>end\<close> counts from the end of the array, and the
  result is empty when the end lies before the start; \<^verbatim>\<open>xs.slice(end)\<close> likewise for
  its start.
\<close>

definition slice0 :: "'a list \<Rightarrow> int \<Rightarrow> 'a list" where
  "slice0 xs e = (if e < 0 then take (nat (int (length xs) + e)) xs else take (nat e) xs)"

definition sliceFrom :: "'a list \<Rightarrow> int \<Rightarrow> 'a list" where
  "sliceFrom xs b = (if b < 0 then drop (nat (int (length xs) + b)) xs else drop (nat b) xs)"

text \<open>The comparator both sorts of the memory fallback use.\<close>

definition compareItems :: "HotSearchItem \<Rightarrow> HotSearchItem \<Rightarrow> int" where
  "compareItems a b =
     (if score b \<noteq> score a then score b - score a else lastSearched b - lastSearched a)"

subsection \<open>The memory fallback\<close>

text \<open>
  \<^verbatim>\<open>memoryStore\<close> is a \<^verbatim>\<open>Map<string, HotSearchItem>\<close>. A JavaScript Map iterates in
  insertion order, and the sorts below are stable, so this order is observable: the store
  is an association list in insertion order. \<^verbatim>\<open>set\<close> on a present key keeps the key's
  place, on a new key it appends.
\<close>

type_synonym memoryStore = "(jsstring \<times> HotSearchItem) list"

fun mapSet :: "memoryStore \<Rightarrow> jsstring \<Rightarrow> HotSearchItem \<Rightarrow> memoryStore" where
  "mapSet [] k v = [(k, v)]"
| "mapSet (e # es) k v = (if fst e = k then (k, v) # es else e # mapSet es k v)"

definition mapDelete :: "memoryStore \<Rightarrow> jsstring \<Rightarrow> bool \<times> memoryStore" where
  "mapDelete m k = (map_of m k \<noteq> None, filter (\<lambda>e. fst e \<noteq> k) m)"

text \<open>
  \<^verbatim>\<open>prepare(sql)\<close> of the fallback object picks a statement object by substring tests on
  the SQL text, in this order. The objects differ in the methods they have.
\<close>

datatype stmt =
  InsertStmt | CountStmt | SelectStmt | DeleteTermStmt | DeleteAllStmt | DeleteNotInStmt
  | DefaultStmt

definition prepare :: "jsstring \<Rightarrow> stmt" where
  "prepare sql =
     (if includesStr sql (js ''INSERT INTO'') then InsertStmt
      else if includesStr sql (js ''SELECT COUNT(*)'') \<and> includesStr sql (js ''FROM hot_searches'')
        then CountStmt
      else if includesStr sql (js ''SELECT'') \<and> includesStr sql (js ''FROM hot_searches'')
        then SelectStmt
      else if includesStr sql (js ''DELETE FROM hot_searches'')
              \<and> includesStr sql (js ''WHERE term = ?'')
        then DeleteTermStmt
      else if sql = js ''DELETE FROM hot_searches'' then DeleteAllStmt
      else if includesStr sql (js ''DELETE FROM hot_searches'') then DeleteNotInStmt
      else DefaultStmt)"

text \<open>The closures of the statement objects, with the parameters their signatures name.\<close>

definition insertRun :: "jsstring \<Rightarrow> int \<Rightarrow> int \<Rightarrow> int \<Rightarrow> memoryStore \<Rightarrow> memoryStore" where
  "insertRun t lastSearched' createdAt' now m =
     (case map_of m t of
        Some existing \<Rightarrow> mapSet m t (existing\<lparr>score := score existing + 1, lastSearched := now\<rparr>)
      | None \<Rightarrow> mapSet m t \<lparr>term' = t, score = 1, lastSearched = now, createdAt = now\<rparr>)"

text \<open>
  \<^verbatim>\<open>all(limit)\<close>: called without an argument, \<open>limit\<close> is undefined and
  \<^verbatim>\<open>slice(0, undefined)\<close> keeps the whole array.
\<close>

definition selectAll :: "int option \<Rightarrow> memoryStore \<Rightarrow> HotSearchItem list" where
  "selectAll limit m =
     map (\<lambda>item. \<lparr>term' = term' item, score = score item,
                  lastSearched = lastSearched item, createdAt = createdAt item\<rparr>)
       (case limit of
          None \<Rightarrow> sortBy compareItems (map snd m)
        | Some e \<Rightarrow> slice0 (sortBy compareItems (map snd m)) e)"

definition deleteTermRun :: "jsstring \<Rightarrow> memoryStore \<Rightarrow> int \<times> memoryStore" where
  "deleteTermRun t m =
     (case mapDelete m t of (deleted, m') \<Rightarrow> (if deleted then 1 else 0, m'))"

definition deleteAllRun :: "memoryStore \<Rightarrow> int \<times> memoryStore" where
  "deleteAllRun m = (int (length m), [])"

definition deleteNotInRun :: "int \<Rightarrow> memoryStore \<Rightarrow> int \<times> memoryStore" where
  "deleteNotInRun limit m =
     (let entries = sortBy (\<lambda>a b. compareItems (snd a) (snd b)) m
      in (max 0 (int (length entries) - limit),
          if int (length entries) > limit
          then fold (\<lambda>e store. snd (mapDelete store (fst e))) (sliceFrom entries limit) m
          else m))"

text \<open>
  Calling a method on a statement object. \<open>TypeError\<close> is what JavaScript raises when the
  object has no such method. The arguments are JavaScript values; shapes that a closure's
  signature excludes, and that the service never passes, end in \<open>BadArguments\<close>.
  A closure ignores arguments beyond its parameters. \<^verbatim>\<open>run\<close> yields the
  \<^verbatim>\<open>changes\<close> of its result, if it returns one.
\<close>

datatype jsval = JStr jsstring | JNum int

datatype js_error = TypeError | BadArguments | SqliteError

definition stmtRun :: "stmt \<Rightarrow> jsval list \<Rightarrow> memoryStore \<Rightarrow> js_error + (int option \<times> memoryStore)" where
  "stmtRun s args m =
     (case s of
        InsertStmt \<Rightarrow>
          (case args of
             JStr t # JNum ls # JNum ca # JNum now # _ \<Rightarrow> Inr (None, insertRun t ls ca now m)
           | _ \<Rightarrow> Inl BadArguments)
      | CountStmt \<Rightarrow> Inl TypeError
      | SelectStmt \<Rightarrow> Inl TypeError
      | DeleteTermStmt \<Rightarrow>
          (case args of
             JStr t # _ \<Rightarrow> (case deleteTermRun t m of (c, m') \<Rightarrow> Inr (Some c, m'))
           | _ \<Rightarrow> Inl BadArguments)
      | DeleteAllStmt \<Rightarrow> (case deleteAllRun m of (c, m') \<Rightarrow> Inr (Some c, m'))
      | DeleteNotInStmt \<Rightarrow>
          (case args of
             JNum limit # _ \<Rightarrow> (case deleteNotInRun limit m of (c, m') \<Rightarrow> Inr (Some c, m'))
           | _ \<Rightarrow> Inl BadArguments)
      | DefaultStmt \<Rightarrow> Inr (Some 0, m))"

definition stmtAll :: "stmt \<Rightarrow> jsval list \<Rightarrow> memoryStore \<Rightarrow> js_error + HotSearchItem list" where
  "stmtAll s args m =
     (case s of
        SelectStmt \<Rightarrow>
          (case args of
             [] \<Rightarrow> Inr (selectAll None m)
           | JNum limit # _ \<Rightarrow> Inr (selectAll (Some limit) m)
           | _ \<Rightarrow> Inl BadArguments)
      | DefaultStmt \<Rightarrow> Inr []
      | _ \<Rightarrow> Inl TypeError)"

subsection \<open>The SQLite database\<close>

text \<open>
  The durable backend is the table \<^verbatim>\<open>hot_searches\<close> behind \<^verbatim>\<open>better-sqlite3\<close>. The
  engine is not part of the repository; what is modelled is the meaning of the five SQL
  statements the service prepares. The table is the list of its rows in the order they
  were inserted, with the largest \<^verbatim>\<open>id\<close> handed out so far. Input and output faults of
  the engine are not modelled.
\<close>

record row =
  id_col :: nat
  term_col :: jsstring
  score_col :: int
  last_searched :: int
  created_at :: int

record hot_searches =
  tbl_rows :: "row list"
  tbl_seq :: nat

text \<open>
  A string bound to a statement reaches the engine as UTF-8 text. A surrogate code unit
  that is not part of a pair has no UTF-8 form and becomes U+FFFD, so the \<^verbatim>\<open>term\<close> column
  holds, and compares, \<open>sqliteText t\<close>; a string without lone surrogates is held as it
  is.
\<close>

definition isHighSurrogate :: "jschar \<Rightarrow> bool" where
  "isHighSurrogate c \<longleftrightarrow> 55296 \<le> c \<and> c \<le> 56319"

definition isLowSurrogate :: "jschar \<Rightarrow> bool" where
  "isLowSurrogate c \<longleftrightarrow> 56320 \<le> c \<and> c \<le> 57343"

fun sqliteText :: "jsstring \<Rightarrow> jsstring" where
  "sqliteText [] = []"
| "sqliteText [c] = [if isHighSurrogate c \<or> isLowSurrogate c then 65533 else c]"
| "sqliteText (c # d # cs) =
     (if isHighSurrogate c \<and> isLowSurrogate d then c # d # sqliteText cs
      else if isHighSurrogate c \<or> isLowSurrogate c then 65533 # sqliteText (d # cs)
      else c # sqliteText (d # cs))"

text \<open>
  A number bound to \<^verbatim>\<open>LIMIT ?\<close> has to be an integer of 64 bits: outside the open
  interval from \<open>- 2 ^ 63\<close> to \<open>2 ^ 63\<close> the statement raises a datatype mismatch.
\<close>

definition limitFits :: "int \<Rightarrow> bool" where
  "limitFits n \<longleftrightarrow> - (2 ^ 63) < n \<and> n < 2 ^ 63"

text \<open>
  \<^verbatim>\<open>INSERT INTO hot_searches (term, score, last_searched, created_at) VALUES (?, 1, ?, ?)
  ON CONFLICT(term) DO UPDATE SET score = score + 1, last_searched = ?\<close>:
  the row of that term is updated, or a new row is appended under a fresh id. The id is
  drawn, and the sequence advanced, before the conflict is detected.
\<close>

definition sqlUpsert :: "jsstring \<Rightarrow> int \<Rightarrow> int \<Rightarrow> int \<Rightarrow> hot_searches \<Rightarrow> hot_searches" where
  "sqlUpsert t ls ca upd tbl =
     (let i = Suc (fold max (map id_col (tbl_rows tbl)) (tbl_seq tbl))
      in if list_ex (\<lambda>r. term_col r = t) (tbl_rows tbl)
         then \<lparr>tbl_rows =
                 map (\<lambda>r. if term_col r = t
                           then r\<lparr>score_col := score_col r + 1, last_searched := upd\<rparr> else r)
                   (tbl_rows tbl),
               tbl_seq = i\<rparr>
         else \<lparr>tbl_rows = tbl_rows tbl @
                 [\<lparr>id_col = i, term_col = t, score_col = 1, last_searched = ls,
                   created_at = ca\<rparr>],
               tbl_seq = i\<rparr>)"

text \<open>
  \<^verbatim>\<open>ORDER BY score DESC, last_searched DESC\<close>. SQL leaves the order of rows with equal
  keys open; the model keeps them in table order. \<^verbatim>\<open>LIMIT n\<close> with a negative \<open>n\<close>
  puts no bound on the number of rows (SQLite's documented meaning).
\<close>

definition orderBy :: "row list \<Rightarrow> row list" where
  "orderBy rs = sort_key (\<lambda>r. (- score_col r, - last_searched r)) rs"

definition sqlLimit :: "int \<Rightarrow> 'a list \<Rightarrow> 'a list" where
  "sqlLimit n rs = (if n < 0 then rs else take (nat n) rs)"

definition sqlSelectTop :: "int \<Rightarrow> hot_searches \<Rightarrow> HotSearchItem list" where
  "sqlSelectTop n tbl =
     map (\<lambda>r. \<lparr>term' = term_col r, score = score_col r,
               lastSearched = last_searched r, createdAt = created_at r\<rparr>)
       (sqlLimit n (orderBy (tbl_rows tbl)))"

text \<open>
  \<^verbatim>\<open>DELETE FROM hot_searches WHERE id NOT IN (SELECT id FROM hot_searches
  ORDER BY score DESC, last_searched DESC LIMIT ?)\<close>.
\<close>

definition sqlDeleteNotInTop :: "int \<Rightarrow> hot_searches \<Rightarrow> int \<times> hot_searches" where
  "sqlDeleteNotInTop n tbl =
     (let ids = map id_col (sqlLimit n (orderBy (tbl_rows tbl)));
          kept = filter (\<lambda>r. id_col r \<in> set ids) (tbl_rows tbl)
      in (int (length (tbl_rows tbl)) - int (length kept), tbl\<lparr>tbl_rows := kept\<rparr>))"

definition sqlDeleteAll :: "hot_searches \<Rightarrow> int \<times> hot_searches" where
  "sqlDeleteAll tbl = (int (length (tbl_rows tbl)), tbl\<lparr>tbl_rows := []\<rparr>)"

definition sqlDeleteTerm :: "jsstring \<Rightarrow> hot_searches \<Rightarrow> int \<times> hot_searches" where
  "sqlDeleteTerm t tbl =
     (let kept = filter (\<lambda>r. term_col r \<noteq> t) (tbl_rows tbl)
      in (int (length (tbl_rows tbl)) - int (length kept), tbl\<lparr>tbl_rows := kept\<rparr>))"

subsection \<open>The SQL texts of the service\<close>

definition INSERT_SQL :: jsstring where
  "INSERT_SQL = js (''\<newline>        INSERT INTO hot_searches (term, score, last_searched, created_at)''
     @ ''\<newline>        VALUES (?, 1, ?, ?)''
     @ ''\<newline>        ON CONFLICT(term) DO UPDATE SET''
     @ ''\<newline>          score = score + 1,''
     @ ''\<newline>          last_searched = ?''
     @ ''\<newline>      '')"

definition SELECT_SQL :: jsstring where
  "SELECT_SQL = js (''\<newline>        SELECT term, score, last_searched as lastSearched, created_at as createdAt''
     @ ''\<newline>        FROM hot_searches''
     @ ''\<newline>        ORDER BY score DESC, last_searched DESC''
     @ ''\<newline>        LIMIT ?''
     @ ''\<newline>      '')"

definition CLEANUP_SQL :: jsstring where
  "CLEANUP_SQL = js (''\<newline>        DELETE FROM hot_searches''
     @ ''\<newline>        WHERE id NOT IN (''
     @ ''\<newline>          SELECT id FROM hot_searches''
     @ ''\<newline>          ORDER BY score DESC, last_searched DESC''
     @ ''\<newline>          LIMIT ?''
     @ ''\<newline>        )''
     @ ''\<newline>      '')"

definition CLEAR_SQL :: jsstring where
  "CLEAR_SQL = js ''DELETE FROM hot_searches''"

definition DELETE_SQL :: jsstring where
  "DELETE_SQL = js ''DELETE FROM hot_searches WHERE term = ?''"

text \<open>
  The engine's \<^verbatim>\<open>prepare\<close>, for the statements above; any other text is outside the
  model and ends in \<open>SqliteError\<close>. \<^verbatim>\<open>run\<close> on a statement that returns rows, \<^verbatim>\<open>all\<close>
  on one that does not, and parameters that do not fit are errors of the binding.
\<close>

datatype sql_stmt = SqlUpsert | SqlSelectTop | SqlDeleteNotInTop | SqlDeleteAll | SqlDeleteTerm

definition sqlitePrepare :: "jsstring \<Rightarrow> sql_stmt option" where
  "sqlitePrepare sql =
     (if sql = INSERT_SQL then Some SqlUpsert
      else if sql = SELECT_SQL then Some SqlSelectTop
      else if sql = CLEANUP_SQL then Some SqlDeleteNotInTop
      else if sql = CLEAR_SQL then Some SqlDeleteAll
      else if sql = DELETE_SQL then Some SqlDeleteTerm
      else None)"

definition sqliteRun :: "sql_stmt \<Rightarrow> jsval list \<Rightarrow> hot_searches \<Rightarrow> js_error + (int option \<times> hot_searches)" where
  "sqliteRun s args tbl =
     (case s of
        SqlUpsert \<Rightarrow>
          (case args of
             [JStr t, JNum ls, JNum ca, JNum upd] \<Rightarrow>
               Inr (Some 1, sqlUpsert (sqliteText t) ls ca upd tbl)
           | _ \<Rightarrow> Inl SqliteError)
      | SqlSelectTop \<Rightarrow> Inl SqliteError
      | SqlDeleteNotInTop \<Rightarrow>
          (case args of
             [JNum n] \<Rightarrow>
               (if limitFits n
                then (case sqlDeleteNotInTop n tbl of (c, tbl') \<Rightarrow> Inr (Some c, tbl'))
                else Inl SqliteError)
           | _ \<Rightarrow> Inl SqliteError)
      | SqlDeleteAll \<Rightarrow>
          (case args of
             [] \<Rightarrow> (case sqlDeleteAll tbl of (c, tbl') \<Rightarrow> Inr (Some c, tbl'))
           | _ \<Rightarrow> Inl SqliteError)
      | SqlDeleteTerm \<Rightarrow>
          (case args of
             [JStr t] \<Rightarrow>
               (case sqlDeleteTerm (sqliteText t) tbl of (c, tbl') \<Rightarrow> Inr (Some c, tbl'))
           | _ \<Rightarrow> Inl SqliteError))"

definition sqliteAll :: "sql_stmt \<Rightarrow> jsval list \<Rightarrow> hot_searches \<Rightarrow> js_error + HotSearchItem list" where
  "sqliteAll s args tbl =
     (case s of
        SqlSelectTop \<Rightarrow>
          (case args of
             [JNum n] \<Rightarrow> if limitFits n then Inr (sqlSelectTop n tbl) else Inl SqliteError
           | _ \<Rightarrow> Inl SqliteError)
      | _ \<Rightarrow> Inl SqliteError)"

subsection \<open>The database handle\<close>

text \<open>
  \<^verbatim>\<open>this.db\<close> is the SQLite database when \<^verbatim>\<open>better-sqlite3\<close> initialised, and the
  fallback object otherwise; it is chosen once, in the constructor. \<open>dbRun\<close> and
  \<open>dbAll\<close> are \<^verbatim>\<open>this.db.prepare(sql).run(...)\<close> and \<^verbatim>\<open>this.db.prepare(sql).all(...)\<close>.
\<close>

datatype db = Sqlite hot_searches | Memory memoryStore

definition dbRun :: "db \<Rightarrow> jsstring \<Rightarrow> jsval list \<Rightarrow> js_error + (int option \<times> db)" where
  "dbRun d sql args =
     (case d of
        Memory m \<Rightarrow>
          (case stmtRun (prepare sql) args m of
             Inl e \<Rightarrow> Inl e
           | Inr (c, m') \<Rightarrow> Inr (c, Memory m'))
      | Sqlite tbl \<Rightarrow>
          (case sqlitePrepare sql of
             None \<Rightarrow> Inl SqliteError
           | Some s \<Rightarrow>
               (case sqliteRun s args tbl of
                  Inl e \<Rightarrow> Inl e
                | Inr (c, tbl') \<Rightarrow> Inr (c, Sqlite tbl'))))"

definition dbAll :: "db \<Rightarrow> jsstring \<Rightarrow> jsval list \<Rightarrow> js_error + HotSearchItem list" where
  "dbAll d sql args =
     (case d of
        Memory m \<Rightarrow> stmtAll (prepare sql) args m
      | Sqlite tbl \<Rightarrow>
          (case sqlitePrepare sql of
             None \<Rightarrow> Inl SqliteError
           | Some s \<Rightarrow> sqliteAll s args tbl))"

section \<open>The service\<close>

text \<open>
  \<^verbatim>\<open>cleanupOldEntries\<close>: whatever the statement raises is caught and ignored.
\<close>

definition cleanupOldEntries :: "db \<Rightarrow> db" where
  "cleanupOldEntries d =
     (case dbRun d CLEANUP_SQL [JNum MAX_ENTRIES] of
        Inl e \<Rightarrow> d
      | Inr (result, d') \<Rightarrow> d')"

text \<open>
  \<^verbatim>\<open>recordSearch(term)\<close>, with the value of \<^verbatim>\<open>Date.now()\<close> as a parameter. The term is
  trimmed for the emptiness test only; the statement is run with \<open>term\<close> itself.
\<close>

definition recordSearch :: "int \<Rightarrow> jsstring \<Rightarrow> db \<Rightarrow> db" where
  "recordSearch now t d =
     (if t = [] \<or> length (trim t) = 0 then d
      else if isForbidden t then d
      else (case dbRun d INSERT_SQL [JStr t, JNum now, JNum now, JNum now] of
              Inl e \<Rightarrow> d
            | Inr (result, d') \<Rightarrow> cleanupOldEntries d'))"

text \<open>\<^verbatim>\<open>getHotSearches(limit)\<close>; the default of \<open>limit\<close> is 30.\<close>

definition getHotSearches :: "int \<Rightarrow> db \<Rightarrow> HotSearchItem list" where
  "getHotSearches limit d =
     (case dbAll d SELECT_SQL [JNum (min limit MAX_ENTRIES)] of
        Inl e \<Rightarrow> []
      | Inr rows \<Rightarrow>
          map (\<lambda>r. \<lparr>term' = term' r, score = score r,
                    lastSearched = lastSearched r, createdAt = createdAt r\<rparr>) rows)"

text \<open>
  The administrative operations. \<open>env\<close> is the environment variable
  \<^verbatim>\<open>HOT_SEARCH_PASSWORD\<close>; unset or empty, the password is \<^verbatim>\<open>admin123\<close>.
\<close>

record result =
  success :: bool
  message :: jsstring

definition correctPassword :: "jsstring option \<Rightarrow> jsstring" where
  "correctPassword env =
     (case env of None \<Rightarrow> js ''admin123'' | Some p \<Rightarrow> if p = [] then js ''admin123'' else p)"

definition MSG_WRONG_PASSWORD :: jsstring where
  "MSG_WRONG_PASSWORD = [23494, 30721, 38169, 35823]"

definition MSG_CLEARED :: jsstring where
  "MSG_CLEARED = [28909, 25628, 35760, 24405, 24050, 28165, 38500]"

definition MSG_CLEAR_FAILED :: jsstring where
  "MSG_CLEAR_FAILED = [28165, 38500, 22833, 36133]"

definition MSG_DELETED :: "jsstring \<Rightarrow> jsstring" where
  "MSG_DELETED t = [28909, 25628, 35789, 32, 34] @ t @ [34, 32, 24050, 21024, 38500]"

definition MSG_NOT_FOUND :: jsstring where
  "MSG_NOT_FOUND = [28909, 25628, 35789, 19981, 23384, 22312]"

definition MSG_DELETE_FAILED :: jsstring where
  "MSG_DELETE_FAILED = [21024, 38500, 22833, 36133]"

definition clearHotSearches :: "jsstring option \<Rightarrow> jsstring \<Rightarrow> db \<Rightarrow> result \<times> db" where
  "clearHotSearches env password d =
     (if password \<noteq> correctPassword env
      then (\<lparr>success = False, message = MSG_WRONG_PASSWORD\<rparr>, d)
      else (case dbRun d CLEAR_SQL [] of
              Inl e \<Rightarrow> (\<lparr>success = False, message = MSG_CLEAR_FAILED\<rparr>, d)
            | Inr (result, d') \<Rightarrow> (\<lparr>success = True, message = MSG_CLEARED\<rparr>, d')))"

definition deleteHotSearch :: "jsstring option \<Rightarrow> jsstring \<Rightarrow> jsstring \<Rightarrow> db \<Rightarrow> result \<times> db" where
  "deleteHotSearch env t password d =
     (if password \<noteq> correctPassword env
      then (\<lparr>success = False, message = MSG_WRONG_PASSWORD\<rparr>, d)
      else (case dbRun d DELETE_SQL [JStr t] of
              Inl e \<Rightarrow> (\<lparr>success = False, message = MSG_DELETE_FAILED\<rparr>, d)
            | Inr (None, d') \<Rightarrow> (\<lparr>success = False, message = MSG_DELETE_FAILED\<rparr>, d')
            | Inr (Some changes, d') \<Rightarrow>
                (if changes > 0 then (\<lparr>success = True, message = MSG_DELETED t\<rparr>, d')
                 else (\<lparr>success = False, message = MSG_NOT_FOUND\<rparr>, d'))))"

text \<open>
  \<^verbatim>\<open>getDatabaseSize()\<close> looks at the file \<^verbatim>\<open>./data/hot-searches.db\<close>, whichever backend
  is in use. The file system is a parameter: the file is missing, or \<^verbatim>\<open>statSync\<close>
  raises, or the file has a size in bytes. The source computes in double precision; the
  model computes in the reals.
\<close>

datatype db_file = NoFile | StatFails | FileOfSize nat

definition getDatabaseSize :: "db_file \<Rightarrow> real" where
  "getDatabaseSize f =
     (case f of
        FileOfSize bytes \<Rightarrow> real_of_int (round ((real bytes / (1024 * 1024)) * 100)) / 100
      | _ \<Rightarrow> 0)"

section \<open>Notions of the specification\<close>

text \<open>
  The eight keywords of the moderation filter, and containment in any letter case, as the
  specification words them: both strings are put in lower case and the keyword has to
  occur in the term.
\<close>

definition forbiddenKeywords :: "jsstring list" where
  "forbiddenKeywords =
     [[25919, 27835], [26292, 21147], [33394, 24773], [36172, 21338], [27602, 21697],
      js ''fuck'', js ''shit'', js ''bitch'']"

definition lowerCase :: "jschar \<Rightarrow> jschar" where
  "lowerCase c = (if 65 \<le> c \<and> c \<le> 90 then c + 32 else c)"

definition containsIgnoringCase :: "jsstring \<Rightarrow> jsstring \<Rightarrow> bool" where
  "containsIgnoringCase t k = sublist (map lowerCase k) (map lowerCase t)"

text \<open>
  The ranking order of the specification: score descending, ties broken by the time of the
  last access descending. \<open>ranking\<close> is the whole store in the order a backend ranks
  it, \<open>dbRecords k\<close> are the records stored under the key \<open>k\<close>, \<open>dbCount\<close> is the
  number of stored records, and \<open>recordAll t ts\<close> records the term \<open>t\<close> once at
  each of the times \<open>ts\<close>.
\<close>

definition ranksBefore :: "HotSearchItem \<Rightarrow> HotSearchItem \<Rightarrow> bool" where
  "ranksBefore a b \<longleftrightarrow>
     score b < score a \<or> (score a = score b \<and> lastSearched b \<le> lastSearched a)"

definition rowItem :: "row \<Rightarrow> HotSearchItem" where
  "rowItem r = \<lparr>term' = term_col r, score = score_col r,
               lastSearched = last_searched r, createdAt = created_at r\<rparr>"

definition ranking :: "db \<Rightarrow> HotSearchItem list" where
  "ranking d =
     (case d of
        Memory m \<Rightarrow> sortBy compareItems (map snd m)
      | Sqlite tbl \<Rightarrow> map rowItem (orderBy (tbl_rows tbl)))"

definition dbRecords :: "jsstring \<Rightarrow> db \<Rightarrow> HotSearchItem list" where
  "dbRecords k d =
     (case d of
        Memory m \<Rightarrow> map snd (filter (\<lambda>e. fst e = k) m)
      | Sqlite tbl \<Rightarrow> map rowItem (filter (\<lambda>r. term_col r = k) (tbl_rows tbl)))"

definition dbCount :: "db \<Rightarrow> nat" where
  "dbCount d = (case d of Memory m \<Rightarrow> length m | Sqlite tbl \<Rightarrow> length (tbl_rows tbl))"


text \<open>
  The table has room for a new row at the time \<open>now\<close> when it holds fewer than
  \<open>MAX_ENTRIES\<close> rows, or holds \<open>MAX_ENTRIES\<close> rows (under distinct ids, as the primary key
  makes them) of which one ranks below a row of score 1 last accessed at \<open>now\<close>.
\<close>

definition hasRoomFor :: "int \<Rightarrow> hot_searches \<Rightarrow> bool" where
  "hasRoomFor now tbl \<longleftrightarrow>
     int (length (tbl_rows tbl)) < MAX_ENTRIES
     \<or> (int (length (tbl_rows tbl)) = MAX_ENTRIES
        \<and> distinct (map id_col (tbl_rows tbl))
        \<and> list_ex (\<lambda>r. score_col r < 1 \<or> (score_col r = 1 \<and> last_searched r < now))
             (tbl_rows tbl))"

text \<open>
  A string is well formed (\<^verbatim>\<open>String.prototype.isWellFormed\<close>) when every surrogate code
  unit in it is part of a pair, a high surrogate followed by a low one.
\<close>

fun isWellFormed :: "jsstring \<Rightarrow> bool" where
  "isWellFormed [] = True"
| "isWellFormed [c] = (\<not> isHighSurrogate c \<and> \<not> isLowSurrogate c)"
| "isWellFormed (c # d # cs) =
     (if isHighSurrogate c \<and> isLowSurrogate d then isWellFormed cs
      else \<not> isHighSurrogate c \<and> \<not> isLowSurrogate c \<and> isWellFormed (d # cs))"

text \<open>
  Sequences of calls: \<open>recordEach\<close> performs a list of \<^verbatim>\<open>recordSearch\<close> calls, each with
  its term and its time. \<open>distinctCalls n\<close> records the \<open>n\<close> distinct terms
  \<^verbatim>\<open>t00\<close>, \<^verbatim>\<open>t01\<close>, ... at the times 0, 1, ...; \<open>testEntry i\<close> is the entry the
  memory fallback holds for the \<open>i\<close>-th of them after one call.
\<close>

definition recordEach :: "(jsstring \<times> int) list \<Rightarrow> db \<Rightarrow> db" where
  "recordEach calls d = fold (\<lambda>c. recordSearch (snd c) (fst c)) calls d"

definition testTerm :: "nat \<Rightarrow> jsstring" where
  "testTerm i = [116, 48 + i div 10, 48 + i mod 10]"

definition distinctCalls :: "nat \<Rightarrow> (jsstring \<times> int) list" where
  "distinctCalls n = map (\<lambda>i. (testTerm i, int i)) [0..<n]"

definition emptyTable :: hot_searches where
  "emptyTable = \<lparr>tbl_rows = [], tbl_seq = 0\<rparr>"

definition testEntry :: "nat \<Rightarrow> jsstring \<times> HotSearchItem" where
  "testEntry i = (testTerm i, \<lparr>term' = testTerm i, score = 1,
                                lastSearched = int i, createdAt = int i\<rparr>)"

text \<open>
  \<open>testRow i\<close> is the row the table holds for the \<open>i\<close>-th test term after one call,
  \<open>older\<close> compares two rows of equal score by the time of their last access, and
  \<open>laterRows a\<close> and \<open>laterEntries a\<close> are the rows and the entries of the test terms
  from the \<open>a\<close>-th to the last of 51.
\<close>

definition testRow :: "nat \<Rightarrow> row" where
  "testRow i = \<lparr>id_col = Suc i, term_col = testTerm i, score_col = 1,
               last_searched = int i, created_at = int i\<rparr>"

definition older :: "row \<Rightarrow> row \<Rightarrow> bool" where
  "older a b \<longleftrightarrow> score_col a = score_col b \<and> last_searched a < last_searched b"

definition laterRows :: "nat \<Rightarrow> row list" where
  "laterRows a = map testRow [a..<51]"

definition laterEntries :: "nat \<Rightarrow> memoryStore" where
  "laterEntries a = map testEntry [a..<51]"

section \<open>Properties\<close>

subsection \<open>What each SQL text prepares, and the service on each backend\<close>

lemma prepare_INSERT: "prepare INSERT_SQL = InsertStmt"
  by code_simp

lemma prepare_SELECT: "prepare SELECT_SQL = SelectStmt"
  by code_simp

lemma prepare_CLEANUP: "prepare CLEANUP_SQL = SelectStmt"
  by code_simp

lemma prepare_CLEAR: "prepare CLEAR_SQL = DeleteAllStmt"
  by code_simp

lemma prepare_DELETE: "prepare DELETE_SQL = DeleteTermStmt"
  by code_simp

lemma sqlitePrepare_INSERT: "sqlitePrepare INSERT_SQL = Some SqlUpsert"
  by code_simp

lemma sqlitePrepare_SELECT: "sqlitePrepare SELECT_SQL = Some SqlSelectTop"
  by code_simp

lemma sqlitePrepare_CLEANUP: "sqlitePrepare CLEANUP_SQL = Some SqlDeleteNotInTop"
  by code_simp

lemma sqlitePrepare_CLEAR: "sqlitePrepare CLEAR_SQL = Some SqlDeleteAll"
  by code_simp

lemma sqlitePrepare_DELETE: "sqlitePrepare DELETE_SQL = Some SqlDeleteTerm"
  by code_simp

lemma cleanupOldEntries_Memory: "cleanupOldEntries (Memory m) = Memory m"
  by (simp add: cleanupOldEntries_def dbRun_def prepare_CLEANUP stmtRun_def)

lemma limitFits_MAX_ENTRIES: "limitFits MAX_ENTRIES"
  by (simp add: limitFits_def MAX_ENTRIES_def)

lemma cleanupOldEntries_Sqlite:
  "cleanupOldEntries (Sqlite tbl) = Sqlite (snd (sqlDeleteNotInTop MAX_ENTRIES tbl))"
  by (simp add: cleanupOldEntries_def dbRun_def sqlitePrepare_CLEANUP sqliteRun_def
      limitFits_MAX_ENTRIES split: prod.split)

lemma recordSearch_Memory:
  "recordSearch now t (Memory m) =
     (if trim t = [] \<or> isForbidden t then Memory m else Memory (insertRun t now now now m))"
  by (auto simp add: recordSearch_def dbRun_def prepare_INSERT stmtRun_def
      cleanupOldEntries_Memory trim_def)

lemma recordSearch_Sqlite:
  "recordSearch now t (Sqlite tbl) =
     (if trim t = [] \<or> isForbidden t then Sqlite tbl
      else Sqlite (snd (sqlDeleteNotInTop MAX_ENTRIES
                          (sqlUpsert (sqliteText t) now now now tbl))))"
  by (auto simp add: recordSearch_def dbRun_def sqlitePrepare_INSERT sqliteRun_def
      cleanupOldEntries_Sqlite trim_def)

lemma item_copy: "map (\<lambda>r. \<lparr>term' = term' r, score = score r,
                    lastSearched = lastSearched r, createdAt = createdAt r\<rparr>) rows = rows"
  by (induction rows) auto

lemma getHotSearches_Memory:
  "getHotSearches limit (Memory m) = slice0 (sortBy compareItems (map snd m)) (min limit MAX_ENTRIES)"
  by (simp add: getHotSearches_def dbAll_def prepare_SELECT stmtAll_def selectAll_def item_copy)

lemma getHotSearches_Sqlite:
  "getHotSearches limit (Sqlite tbl) =
     (if limitFits (min limit MAX_ENTRIES) then sqlSelectTop (min limit MAX_ENTRIES) tbl else [])"
  by (simp add: getHotSearches_def dbAll_def sqlitePrepare_SELECT sqliteAll_def item_copy)


subsection \<open>The moderation filter as containment\<close>

lemma canonicalize_eq_iff: "canonicalize a = canonicalize b \<longleftrightarrow> lowerCase a = lowerCase b"
  unfolding canonicalize_def lowerCase_def by (auto split: if_splits)

lemma matchLiteral_prefix:
  "matchLiteral p s \<longleftrightarrow> prefix (map lowerCase p) (map lowerCase s)"
  by (induction p s rule: matchLiteral.induct) (simp_all add: canonicalize_eq_iff)

lemma matchAlternation_iff:
  "matchAlternation alts s \<longleftrightarrow> (\<exists>a\<in>set alts. prefix (map lowerCase a) (map lowerCase s))"
  by (simp add: matchAlternation_def list_ex_iff matchLiteral_prefix)

lemma regexTest_iff:
  "regexTest alts s \<longleftrightarrow> (\<exists>a\<in>set alts. containsIgnoringCase s a)"
proof (induction s)
  case Nil
  show ?case
    by (simp add: matchAlternation_iff containsIgnoringCase_def)
next
  case (Cons c cs)
  show ?case
    unfolding regexTest.simps Cons.IH matchAlternation_iff containsIgnoringCase_def
    by (auto simp: sublist_Cons_right)
qed

lemma isForbidden_iff: "isForbidden t \<longleftrightarrow> (\<exists>k\<in>set forbiddenKeywords. containsIgnoringCase t k)"
  unfolding isForbidden_def list_ex_iff regexTest_iff forbiddenPatterns_def forbiddenKeywords_def
  by auto

subsection \<open>Blank terms\<close>

lemma dropWhile_all: "(\<forall>c\<in>set t. P c) \<Longrightarrow> dropWhile P t = []"
  by (simp add: dropWhile_eq_Nil_conv)

lemma trim_whitespace: "(\<forall>c\<in>set t. isWhiteSpace c) \<Longrightarrow> trim t = []"
  by (simp add: trim_def dropWhile_all)

lemma trim_Nil_iff: "trim t = [] \<longleftrightarrow> (\<forall>c\<in>set t. isWhiteSpace c)"
proof
  assume a: "trim t = []"
  let ?u = "dropWhile isWhiteSpace t"
  have all: "\<forall>c\<in>set ?u. isWhiteSpace c"
    using a by (simp add: trim_def dropWhile_eq_Nil_conv)
  have "?u = []"
  proof (rule ccontr)
    assume ne: "?u \<noteq> []"
    then have "\<not> isWhiteSpace (hd ?u)" by (rule hd_dropWhile)
    moreover have "hd ?u \<in> set ?u" using ne by simp
    ultimately show False using all by blast
  qed
  then show "\<forall>c\<in>set t. isWhiteSpace c"
    by (simp add: dropWhile_eq_Nil_conv)
next
  assume "\<forall>c\<in>set t. isWhiteSpace c"
  then show "trim t = []" by (rule trim_whitespace)
qed

text \<open>
  Claim C9. \<^verbatim>\<open>recordSearch\<close> of the empty string, or of a string of white space only,
  returns without touching the database: the database after the call is the database
  before it, on either backend. The call cannot raise: the model has no error result.
\<close>

theorem record_blank_noop:
  "t = [] \<or> (\<forall>c\<in>set t. isWhiteSpace c) \<Longrightarrow> recordSearch now t d = d"
  by (auto simp add: recordSearch_def trim_whitespace)

theorem record_blank_noop_witness:
  "recordSearch 7 []
       (Memory [(js ''a'', \<lparr>term' = js ''a'', score = 1, lastSearched = 1, createdAt = 1\<rparr>)])
     = Memory [(js ''a'', \<lparr>term' = js ''a'', score = 1, lastSearched = 1, createdAt = 1\<rparr>)]
   \<and> recordSearch 7 (js ''   '') (Sqlite \<lparr>tbl_rows = [], tbl_seq = 0\<rparr>)
     = Sqlite \<lparr>tbl_rows = [], tbl_seq = 0\<rparr>"
proof -
  have ws: "\<forall>c\<in>set (js ''   ''). isWhiteSpace c"
    by (simp add: js_def isWhiteSpace_def)
  show ?thesis
    using ws record_blank_noop [of "[]" 7] record_blank_noop [of "js ''   ''" 7]
    by blast
qed

subsection \<open>Auxiliary facts\<close>

lemma map_of_mapSet_same: "map_of (mapSet m k v) k = Some v"
  by (induction m) auto

lemma length_mapSet_new: "map_of m k = None \<Longrightarrow> mapSet m k v = m @ [(k, v)]"
  by (induction m) (auto split: if_splits)

lemma fold_max_ge: "(s::nat) \<le> fold max xs s"
proof (induction xs arbitrary: s)
  case Nil
  show ?case by simp
next
  case (Cons x xs)
  have "s \<le> max x s" by simp
  also have "\<dots> \<le> fold max xs (max x s)" by (rule Cons.IH)
  finally show ?case by simp
qed

lemma filter_same_length:
  assumes "length (filter P xs) = length xs"
  shows "\<forall>x\<in>set xs. P x"
proof (rule ccontr)
  assume "\<not> (\<forall>x\<in>set xs. P x)"
  then obtain x where "x \<in> set xs" "\<not> P x" by blast
  then have "length (filter P xs) < length xs" by (rule length_filter_less)
  with assms show False by simp
qed

lemma tbl_seq_deleteNotInTop: "tbl_seq (snd (sqlDeleteNotInTop n tbl)) = tbl_seq tbl"
  by (simp add: sqlDeleteNotInTop_def Let_def)

lemma tbl_rows_deleteNotInTop:
  "tbl_rows (snd (sqlDeleteNotInTop n tbl))
     = filter (\<lambda>r. id_col r \<in> set (map id_col (sqlLimit n (orderBy (tbl_rows tbl))))) (tbl_rows tbl)"
  by (simp add: sqlDeleteNotInTop_def Let_def)

lemma fold_max_bounded: "(\<forall>x\<in>set xs. x \<le> s) \<Longrightarrow> fold max xs (s::nat) = s"
  by (induction xs) (simp_all add: max_absorb2)

lemma fold_max_ge_elem: "x \<in> set xs \<Longrightarrow> (x::nat) \<le> fold max xs s"
proof (induction xs arbitrary: s)
  case Nil
  then show ?case by simp
next
  case (Cons y ys)
  show ?case
  proof (cases "x = y")
    case True
    have "y \<le> max y s" by simp
    also have "\<dots> \<le> fold max ys (max y s)" by (rule fold_max_ge)
    finally show ?thesis using True by simp
  next
    case False
    then have "x \<in> set ys" using Cons.prems by simp
    then show ?thesis using Cons.IH by simp
  qed
qed

lemma sqlUpsert_fresh:
  assumes "t \<notin> set (map term_col (tbl_rows tbl))"
  shows "sqlUpsert t a b now tbl
           = \<lparr>tbl_rows = tbl_rows tbl @
                [\<lparr>id_col = Suc (fold max (map id_col (tbl_rows tbl)) (tbl_seq tbl)),
                  term_col = t, score_col = 1, last_searched = a, created_at = b\<rparr>],
              tbl_seq = Suc (fold max (map id_col (tbl_rows tbl)) (tbl_seq tbl))\<rparr>"
proof -
  have "\<not> list_ex (\<lambda>r. term_col r = t) (tbl_rows tbl)"
    using assms by (auto simp add: list_ex_iff)
  then show ?thesis
    by (simp add: sqlUpsert_def Let_def)
qed

lemma distinct_ids_sqlUpsert:
  assumes "distinct (map id_col (tbl_rows tbl))"
  shows "distinct (map id_col (tbl_rows (sqlUpsert t a b now tbl)))"
proof (cases "list_ex (\<lambda>r. term_col r = t) (tbl_rows tbl)")
  case True
  define inc where "inc = (\<lambda>r::row. if term_col r = t
            then r\<lparr>score_col := score_col r + 1, last_searched := now\<rparr> else r)"
  have m: "map id_col (map inc rs) = map id_col rs" for rs
    by (induction rs) (simp_all add: inc_def)
  have "tbl_rows (sqlUpsert t a b now tbl) = map inc (tbl_rows tbl)"
    using True by (simp add: sqlUpsert_def Let_def inc_def)
  then show ?thesis
    using assms by (simp only: m)
next
  case False
  have "\<forall>x\<in>set (map id_col (tbl_rows tbl)).
          x < Suc (fold max (map id_col (tbl_rows tbl)) (tbl_seq tbl))"
    using fold_max_ge_elem [of _ "map id_col (tbl_rows tbl)" "tbl_seq tbl"]
    by (auto simp add: less_Suc_eq_le)
  then have "Suc (fold max (map id_col (tbl_rows tbl)) (tbl_seq tbl))
               \<notin> set (map id_col (tbl_rows tbl))"
    by blast
  then show ?thesis
    using False assms by (simp add: sqlUpsert_def Let_def)
qed

lemma length_filter_by_ids:
  assumes "distinct (map f xs)"
  shows "length (filter (\<lambda>x. f x \<in> set ys) xs) \<le> length ys"
proof -
  let ?zs = "filter (\<lambda>x. f x \<in> set ys) xs"
  have "distinct (map f ?zs)"
    using assms by (rule distinct_map_filter)
  then have "card (set (map f ?zs)) = length (map f ?zs)"
    by (rule distinct_card)
  then have "length ?zs = card (set (map f ?zs))"
    by (simp only: length_map)
  also have "\<dots> \<le> card (set ys)"
    by (rule card_mono) auto
  also have "\<dots> \<le> length ys"
    by (rule card_length)
  finally show ?thesis .
qed

lemma sorted_last_max:
  assumes s: "sorted (map f xs)" and y: "y \<in> set xs"
  shows "f y \<le> f (last xs)"
proof -
  from y obtain i where i: "i < length xs" "xs ! i = y"
    by (auto simp add: in_set_conv_nth)
  have ne: "xs \<noteq> []"
    using y by auto
  have "map f xs ! i \<le> map f xs ! (length xs - 1)"
    using i(1) by (intro sorted_nth_mono [OF s]) simp_all
  then show ?thesis
    using i ne by (simp add: last_conv_nth)
qed

lemma in_take_of_sorted:
  assumes s: "sorted (map f xs)" and x: "x \<in> set xs" and r: "r \<in> set xs"
    and lt: "f x < f r" and len: "length xs = Suc n"
  shows "x \<in> set (take n xs)"
proof -
  have "f r \<le> f (last xs)"
    using s r by (rule sorted_last_max)
  then have "x \<noteq> last xs"
    using lt by auto
  moreover have "xs \<noteq> []"
    using x by auto
  then have "set xs = set (butlast xs @ [last xs])"
    by simp
  then have "set xs = insert (last xs) (set (butlast xs))"
    by simp
  ultimately have "x \<in> set (butlast xs)"
    using x by simp
  moreover have "take n xs = butlast xs"
    using len by (simp add: butlast_conv_take)
  ultimately show ?thesis
    by simp
qed

lemma sqliteText_wellFormed: "sqliteText t = t \<longleftrightarrow> isWellFormed t"
  by (induction t rule: sqliteText.induct)
    (auto simp add: isHighSurrogate_def isLowSurrogate_def)

lemma length_sqliteText: "length (sqliteText t) = length t"
  by (induction t rule: sqliteText.induct) simp_all

lemma wellFormed_plain: "(\<forall>c\<in>set t. c < 55296) \<Longrightarrow> isWellFormed t"
  by (induction t rule: isWellFormed.induct)
    (auto simp add: isHighSurrogate_def isLowSurrogate_def)

lemma length_dropWhile_same:
  assumes "length (dropWhile P xs) = length xs"
  shows "dropWhile P xs = xs"
proof -
  have "length (takeWhile P xs) + length (dropWhile P xs) = length xs"
    by (simp only: length_append [symmetric] takeWhile_dropWhile_id)
  then have "takeWhile P xs = []"
    using assms by simp
  then have "takeWhile P xs @ dropWhile P xs = dropWhile P xs"
    by simp
  then show ?thesis
    by (simp only: takeWhile_dropWhile_id)
qed

lemma trim_same_length:
  assumes "length (trim t) = length t"
  shows "trim t = t"
proof -
  let ?u = "dropWhile isWhiteSpace t"
  let ?v = "dropWhile isWhiteSpace (rev ?u)"
  have v: "length ?v \<le> length ?u"
    using length_dropWhile_le [of isWhiteSpace "rev ?u"] by simp
  have u: "length ?u \<le> length t"
    by (rule length_dropWhile_le)
  have t: "length ?v = length t"
    using assms by (simp add: trim_def)
  have "length ?u = length t"
    using v u t by linarith
  then have ut: "?u = t"
    by (rule length_dropWhile_same)
  have "length ?v = length (rev ?u)"
    using t ut by simp
  then have "?v = rev ?u"
    by (rule length_dropWhile_same)
  then show ?thesis
    using ut by (simp add: trim_def)
qed

lemma sqliteText_trim_differs:
  assumes "trim t \<noteq> t"
  shows "sqliteText (trim t) \<noteq> sqliteText t"
proof
  assume "sqliteText (trim t) = sqliteText t"
  then have "length (sqliteText (trim t)) = length (sqliteText t)"
    by simp
  then have "length (trim t) = length t"
    by (simp only: length_sqliteText)
  then have "trim t = t"
    by (rule trim_same_length)
  with assms show False
    by simp
qed

lemma wrong_ne: "js ''wrongpassword'' \<noteq> correctPassword None"
  by (simp add: correctPassword_def js_def)

lemma round_hundredths: "\<bar>real_of_int (round (x * 100)) / 100 - x\<bar> \<le> 1 / 200" for x :: real
proof -
  define r where "r = real_of_int (round (x * 100))"
  have h: "\<bar>r - x * 100\<bar> \<le> 1 / 2"
    unfolding r_def by (rule of_int_round_abs_le)
  have lo: "x * 100 - 1 / 2 \<le> r" and hi: "r \<le> x * 100 + 1 / 2"
    using h by linarith+
  have "x - 1 / 200 \<le> r / 100" "r / 100 \<le> x + 1 / 200"
    using lo hi by linarith+
  then have "\<bar>r / 100 - x\<bar> \<le> 1 / 200"
    by linarith
  then show ?thesis
    unfolding r_def .
qed

lemma insertRun_changes: "insertRun t a b now m \<noteq> m"
proof (cases "map_of m t")
  case None
  then show ?thesis by (simp add: insertRun_def length_mapSet_new)
next
  case (Some existing)
  show ?thesis
  proof
    assume eq: "insertRun t a b now m = m"
    have "map_of (insertRun t a b now m) t
            = Some (existing\<lparr>score := score existing + 1, lastSearched := now\<rparr>)"
      by (simp add: insertRun_def Some map_of_mapSet_same)
    with eq Some have "existing\<lparr>score := score existing + 1, lastSearched := now\<rparr> = existing"
      by simp
    then have "score (existing\<lparr>score := score existing + 1, lastSearched := now\<rparr>) = score existing"
      by simp
    then show False by simp
  qed
qed

lemma tbl_seq_sqlUpsert:
  "tbl_seq (sqlUpsert t a b now tbl) = Suc (fold max (map id_col (tbl_rows tbl)) (tbl_seq tbl))"
  by (simp add: sqlUpsert_def Let_def)

lemma sqlite_record_changes:
  "snd (sqlDeleteNotInTop n (sqlUpsert t a b now tbl)) \<noteq> tbl"
proof -
  have "tbl_seq tbl < tbl_seq (snd (sqlDeleteNotInTop n (sqlUpsert t a b now tbl)))"
    using fold_max_ge [of "tbl_seq tbl" "map id_col (tbl_rows tbl)"]
    by (simp add: tbl_seq_deleteNotInTop tbl_seq_sqlUpsert)
  then show ?thesis by auto
qed

lemma record_accepted_changes:
  assumes "trim t \<noteq> []" "\<not> isForbidden t"
  shows "recordSearch now t d \<noteq> d"
proof (cases d)
  case (Sqlite tbl)
  then show ?thesis
    using assms sqlite_record_changes [of MAX_ENTRIES "sqliteText t" now now now tbl]
    by (simp add: recordSearch_Sqlite)
next
  case (Memory m)
  then show ?thesis
    using assms insertRun_changes [of t now now now m]
    by (simp add: recordSearch_Memory)
qed

lemma record_forbidden_noop: "isForbidden t \<Longrightarrow> recordSearch now t d = d"
  by (simp add: recordSearch_def)

lemma movie_not_blank: "trim (js ''movie'') \<noteq> []"
  by (simp add: trim_def js_def isWhiteSpace_def)
lemma movie_allowed: "\<not> isForbidden (js ''movie'')"
  by (simp add: isForbidden_def forbiddenPatterns_def js_def matchAlternation_def canonicalize_def)
lemma forbidden_example: "isForbidden (js ''Raw Shitake'')"
  by (simp add: isForbidden_def forbiddenPatterns_def js_def matchAlternation_def canonicalize_def)

subsection \<open>Moderation, authentication and the database size\<close>

text \<open>
  Claim C10. The moderation filter rejects by containment in any letter case:
  \<^verbatim>\<open>isForbidden\<close> holds of a term exactly when the term contains one of the eight
  keywords, wherever it stands and whatever the case of its letters, so also inside a
  longer word. \<^verbatim>\<open>recordSearch\<close> of such a term leaves the database as it was; for a term
  that is not blank, the database is left as it was exactly when the term contains a
  keyword.
\<close>

theorem moderation_filter:
  "(isForbidden t \<longleftrightarrow> (\<exists>k\<in>set forbiddenKeywords. containsIgnoringCase t k))
   \<and> (isForbidden t \<longrightarrow> recordSearch now t d = d)
   \<and> (trim t \<noteq> [] \<longrightarrow>
        (recordSearch now t d = d \<longleftrightarrow> (\<exists>k\<in>set forbiddenKeywords. containsIgnoringCase t k)))"
proof (intro conjI impI)
  show "isForbidden t \<longleftrightarrow> (\<exists>k\<in>set forbiddenKeywords. containsIgnoringCase t k)"
    by (rule isForbidden_iff)
  show "recordSearch now t d = d" if "isForbidden t"
    using that by (rule record_forbidden_noop)
  show "recordSearch now t d = d \<longleftrightarrow> (\<exists>k\<in>set forbiddenKeywords. containsIgnoringCase t k)"
    if "trim t \<noteq> []"
    unfolding isForbidden_iff [symmetric]
    using that record_accepted_changes [of t now d] record_forbidden_noop [of t now d]
    by blast
qed

theorem moderation_filter_witness:
  "isForbidden (js ''Raw Shitake'')
   \<and> recordSearch 5 (js ''Raw Shitake'') (Memory []) = Memory []
   \<and> \<not> isForbidden (js ''movie'')
   \<and> recordSearch 5 (js ''movie'') (Memory []) \<noteq> Memory []"
proof -
  note a = moderation_filter [of "js ''Raw Shitake''" 5 "Memory []"]
  note b = moderation_filter [of "js ''movie''" 5 "Memory []"]
  have n: "recordSearch 5 (js ''Raw Shitake'') (Memory []) = Memory []"
    using a forbidden_example by (elim conjE) (erule mp)
  have "recordSearch 5 (js ''movie'') (Memory []) = Memory [] \<longleftrightarrow> isForbidden (js ''movie'')"
    using b movie_not_blank by (elim conjE) simp
  then have c: "recordSearch 5 (js ''movie'') (Memory []) \<noteq> Memory []"
    using movie_allowed by simp
  show ?thesis
    by (intro conjI forbidden_example n movie_allowed c)
qed

text \<open>
  Claim C7. With a secret that differs from the configured password, \<^verbatim>\<open>deleteHotSearch\<close>
  and \<^verbatim>\<open>clearHotSearches\<close> answer \<^verbatim>\<open>success: false\<close> with the wrong-password message,
  and the database they return is the one they were given.
\<close>

theorem admin_wrong_password:
  "secret \<noteq> correctPassword env \<Longrightarrow>
     deleteHotSearch env t secret d = (\<lparr>success = False, message = MSG_WRONG_PASSWORD\<rparr>, d)
     \<and> clearHotSearches env secret d = (\<lparr>success = False, message = MSG_WRONG_PASSWORD\<rparr>, d)"
  by (simp add: deleteHotSearch_def clearHotSearches_def)

theorem admin_wrong_password_witness:
  "deleteHotSearch None (js ''a'') (js ''wrongpassword'')
       (Memory [(js ''a'', \<lparr>term' = js ''a'', score = 1, lastSearched = 1, createdAt = 1\<rparr>)])
     = (\<lparr>success = False, message = [23494, 30721, 38169, 35823]\<rparr>,
        Memory [(js ''a'', \<lparr>term' = js ''a'', score = 1, lastSearched = 1, createdAt = 1\<rparr>)])
   \<and> clearHotSearches None (js ''wrongpassword'')
       (Memory [(js ''a'', \<lparr>term' = js ''a'', score = 1, lastSearched = 1, createdAt = 1\<rparr>)])
     = (\<lparr>success = False, message = [23494, 30721, 38169, 35823]\<rparr>,
        Memory [(js ''a'', \<lparr>term' = js ''a'', score = 1, lastSearched = 1, createdAt = 1\<rparr>)])"
  unfolding MSG_WRONG_PASSWORD_def [symmetric]
  by (rule admin_wrong_password [OF wrong_ne])

text \<open>
  Claim C8, as stated: \<^verbatim>\<open>getDatabaseSize\<close> returns the size in bytes. It does not: for a
  file of 1048576 bytes the answer is 1.
\<close>

theorem database_size_bytes_counterexample:
  "getDatabaseSize (FileOfSize 1048576) = 1 \<and> getDatabaseSize (FileOfSize 1048576) \<noteq> 1048576"
  by (simp add: getDatabaseSize_def)

text \<open>
  Claim C8, amended. \<^verbatim>\<open>getDatabaseSize\<close> returns the size of the database file in
  megabytes (bytes divided by 1024 * 1024) rounded to two decimals, so a whole number of
  hundredths within 0.005 of the exact quotient; it returns 0 when the file does not
  exist or cannot be inspected.
\<close>

theorem database_size_megabytes:
  "getDatabaseSize NoFile = 0 \<and> getDatabaseSize StatFails = 0
   \<and> \<bar>getDatabaseSize (FileOfSize n) - real n / (1024 * 1024)\<bar> \<le> 1 / 200
   \<and> (\<exists>k::int. getDatabaseSize (FileOfSize n) = real_of_int k / 100)"
proof (intro conjI)
  show "getDatabaseSize NoFile = 0" "getDatabaseSize StatFails = 0"
    by (simp_all add: getDatabaseSize_def)
  have e: "getDatabaseSize (FileOfSize n)
             = real_of_int (round ((real n / (1024 * 1024)) * 100)) / 100"
    by (simp add: getDatabaseSize_def)
  show "\<bar>getDatabaseSize (FileOfSize n) - real n / (1024 * 1024)\<bar> \<le> 1 / 200"
    unfolding e by (rule round_hundredths)
  show "\<exists>k::int. getDatabaseSize (FileOfSize n) = real_of_int k / 100"
    unfolding e by (rule exI [of _ "round ((real n / (1024 * 1024)) * 100)"]) (rule refl)
qed

theorem database_size_megabytes_witness:
  "getDatabaseSize NoFile = 0 \<and> \<bar>getDatabaseSize (FileOfSize 3145728) - 3\<bar> \<le> 1 / 200"
proof -
  note a = database_size_megabytes [of 3145728]
  have "\<bar>getDatabaseSize (FileOfSize 3145728) - real 3145728 / (1024 * 1024)\<bar> \<le> 1 / 200"
    using a by (elim conjE)
  moreover have "real 3145728 / (1024 * 1024) = 3" by simp
  ultimately have "\<bar>getDatabaseSize (FileOfSize 3145728) - 3\<bar> \<le> 1 / 200"
    by (simp only:)
  moreover have "getDatabaseSize NoFile = 0" using a by (elim conjE)
  ultimately show ?thesis by (intro conjI)
qed

subsection \<open>Ranking, limits and keys\<close>

lemma compareItems_le: "compareItems a b \<le> 0 \<longleftrightarrow> ranksBefore a b"
  by (auto simp add: compareItems_def ranksBefore_def)

lemma ranksBefore_total: "ranksBefore a b \<or> ranksBefore b a"
  by (auto simp add: ranksBefore_def)

lemma ranksBefore_trans: "ranksBefore a b \<Longrightarrow> ranksBefore b c \<Longrightarrow> ranksBefore a c"
  by (auto simp add: ranksBefore_def)

lemma set_insertBy: "set (insertBy cmp x ys) = insert x (set ys)"
  by (induction ys) auto

lemma sorted_insertBy:
  "sorted_wrt ranksBefore ys \<Longrightarrow> sorted_wrt ranksBefore (insertBy compareItems x ys)"
proof (induction ys)
  case Nil
  show ?case by simp
next
  case (Cons y ys)
  show ?case
  proof (cases "compareItems x y \<le> 0")
    case True
    then have xy: "ranksBefore x y" by (simp add: compareItems_le)
    have "\<forall>z\<in>set ys. ranksBefore x z"
      using Cons.prems xy ranksBefore_trans by auto
    then show ?thesis using True xy Cons.prems by simp
  next
    case False
    then have yx: "ranksBefore y x"
      using ranksBefore_total [of x y] by (simp add: compareItems_le)
    have "sorted_wrt ranksBefore (insertBy compareItems x ys)"
      using Cons by simp
    then show ?thesis using False yx Cons.prems by (simp add: set_insertBy)
  qed
qed

lemma sorted_sortBy: "sorted_wrt ranksBefore (sortBy compareItems xs)"
  by (induction xs) (simp_all add: sortBy_def sorted_insertBy)

lemma sorted_wrt_take': "sorted_wrt R xs \<Longrightarrow> sorted_wrt R (take n xs)"
  by (induction xs arbitrary: n) (auto simp add: take_Cons split: nat.split dest: in_set_takeD)

lemma sorted_slice0: "sorted_wrt R xs \<Longrightarrow> sorted_wrt R (slice0 xs e)"
  by (simp add: slice0_def sorted_wrt_take')

lemma sorted_sqlLimit: "sorted_wrt R xs \<Longrightarrow> sorted_wrt R (sqlLimit n xs)"
  by (simp add: sqlLimit_def sorted_wrt_take')

lemma rowItem_key_le:
  "(- score_col a, - last_searched a) \<le> (- score_col b, - last_searched b)
     \<longleftrightarrow> ranksBefore (rowItem a) (rowItem b)"
  by (auto simp add: ranksBefore_def rowItem_def less_eq_prod_def)

lemma sorted_orderBy: "sorted_wrt ranksBefore (map rowItem (orderBy rs))"
proof -
  have "sorted (map (\<lambda>r. (- score_col r, - last_searched r)) (orderBy rs))"
    unfolding orderBy_def by (rule sorted_sort_key)
  then have "sorted_wrt (\<lambda>a b. (- score_col a, - last_searched a)
                                  \<le> (- score_col b, - last_searched b)) (orderBy rs)"
    by (simp only: sorted_map)
  then have "sorted_wrt (\<lambda>a b. ranksBefore (rowItem a) (rowItem b)) (orderBy rs)"
    by (simp only: rowItem_key_le)
  then show ?thesis by (simp only: sorted_wrt_map)
qed

lemma sqlSelectTop_ranking: "sqlSelectTop n tbl = sqlLimit n (ranking (Sqlite tbl))"
  by (simp add: sqlSelectTop_def ranking_def sqlLimit_def rowItem_def [abs_def] take_map)

lemma sorted_ranking: "sorted_wrt ranksBefore (ranking d)"
  by (cases d) (simp_all add: ranking_def sorted_sortBy sorted_orderBy)

lemma getHotSearches_ranking:
  "getHotSearches limit d =
     (case d of
        Memory m \<Rightarrow> slice0 (ranking d) (min limit MAX_ENTRIES)
      | Sqlite tbl \<Rightarrow>
          if limitFits (min limit MAX_ENTRIES) then sqlLimit (min limit MAX_ENTRIES) (ranking d)
          else [])"
  by (cases d) (simp_all add: getHotSearches_Memory getHotSearches_Sqlite sqlSelectTop_ranking
      ranking_def)

theorem list_sorted: "sorted_wrt ranksBefore (getHotSearches limit d)"
  by (cases d) (simp_all add: getHotSearches_ranking sorted_slice0 sorted_sqlLimit sorted_ranking)

lemma insertBy_insort_key:
  "insertBy compareItems x ys = insort_key (\<lambda>i. (- score i, - lastSearched i)) x ys"
proof (induction ys)
  case Nil
  show ?case by simp
next
  case (Cons y ys)
  have "compareItems x y \<le> 0 \<longleftrightarrow> (- score x, - lastSearched x) \<le> (- score y, - lastSearched y)"
    by (auto simp add: compareItems_def less_eq_prod_def)
  then show ?case using Cons by simp
qed

lemma sortBy_sort_key:
  "sortBy compareItems xs = sort_key (\<lambda>i. (- score i, - lastSearched i)) xs"
  by (induction xs) (simp_all add: sortBy_def insertBy_insort_key)

lemma map_insort_key:
  "map g (insort_key (\<lambda>r. f (g r)) x xs) = insort_key f (g x) (map g xs)"
  by (induction xs) simp_all

lemma map_sort_key: "map g (sort_key (\<lambda>r. f (g r)) xs) = sort_key f (map g xs)"
  by (induction xs) (simp_all add: map_insort_key)

lemma rowItem_key:
  "(\<lambda>r. (- score_col r, - last_searched r)) = (\<lambda>r. (- score (rowItem r), - lastSearched (rowItem r)))"
  by (simp add: rowItem_def)

lemma ranking_same_data:
  assumes "map rowItem (tbl_rows tbl) = map snd m"
  shows "ranking (Sqlite tbl) = ranking (Memory m)"
proof -
  have "map rowItem (orderBy (tbl_rows tbl))
          = sort_key (\<lambda>i. (- score i, - lastSearched i)) (map rowItem (tbl_rows tbl))"
    unfolding orderBy_def rowItem_key by (rule map_sort_key)
  then show ?thesis
    using assms by (simp add: ranking_def sortBy_sort_key)
qed

lemma prefix_slice0: "prefix (slice0 xs e) xs"
  by (simp add: slice0_def take_is_prefix)

lemma prefix_sqlLimit: "prefix (sqlLimit n xs) xs"
  by (simp add: sqlLimit_def take_is_prefix)

lemma getHotSearches_prefix: "prefix (getHotSearches limit d) (ranking d)"
  by (cases d) (simp_all add: getHotSearches_ranking prefix_slice0 prefix_sqlLimit)

lemma length_insertBy: "length (insertBy cmp x ys) = Suc (length ys)"
  by (induction ys) simp_all

lemma length_sortBy: "length (sortBy cmp xs) = length xs"
  by (induction xs) (simp_all add: sortBy_def length_insertBy)

lemma length_ranking_Memory: "length (ranking (Memory m)) = length m"
  by (simp add: ranking_def length_sortBy)

lemma getHotSearches_nonneg:
  assumes "0 \<le> limit"
  shows "getHotSearches limit d = take (nat (min limit MAX_ENTRIES)) (ranking d)"
proof -
  have "\<not> min limit MAX_ENTRIES < 0" and "limitFits (min limit MAX_ENTRIES)"
    using assms by (simp_all add: MAX_ENTRIES_def limitFits_def min_def)
  then show ?thesis
    by (cases d) (simp_all add: getHotSearches_ranking slice0_def sqlLimit_def)
qed

lemma getHotSearches_capped: "getHotSearches limit d = getHotSearches (min limit MAX_ENTRIES) d"
  by (simp add: getHotSearches_def)

text \<open>
  Claim C6, amended. \<^verbatim>\<open>getHotSearches\<close> bounds the limit from above only: the backend is
  queried with \<^verbatim>\<open>Math.min(limit, MAX_ENTRIES)\<close>, so a limit and its capped value give the
  same result. For every limit of 0 or more it returns the first \<open>min limit 50\<close> records
  of the ranking, so at most 50. The limit is not bounded from below.
\<close>

theorem list_limit:
  "getHotSearches limit d = getHotSearches (min limit MAX_ENTRIES) d
   \<and> (0 \<le> limit \<longrightarrow>
        getHotSearches limit d = take (nat (min limit MAX_ENTRIES)) (ranking d)
        \<and> length (getHotSearches limit d) \<le> 50)"
proof (intro conjI impI)
  show "getHotSearches limit d = getHotSearches (min limit MAX_ENTRIES) d"
    by (rule getHotSearches_capped)
next
  assume nn: "0 \<le> limit"
  show e: "getHotSearches limit d = take (nat (min limit MAX_ENTRIES)) (ranking d)"
    using nn by (rule getHotSearches_nonneg)
  have "nat (min limit MAX_ENTRIES) \<le> 50"
    by (simp add: MAX_ENTRIES_def)
  then show "length (getHotSearches limit d) \<le> 50"
    unfolding e by simp
qed

text \<open>
  Claim C4. For every database and every limit, the list \<^verbatim>\<open>getHotSearches\<close> returns is
  sorted by score descending, and among equal scores by the time of the last access
  descending. Both backends rank by the same order: each returns a prefix of its ranking,
  and the rankings of a table and of a memory store holding the same records in the same
  order are equal.
\<close>

theorem list_order:
  "sorted_wrt ranksBefore (getHotSearches limit d)
   \<and> prefix (getHotSearches limit d) (ranking d)
   \<and> (map rowItem (tbl_rows tbl) = map snd m \<longrightarrow> ranking (Sqlite tbl) = ranking (Memory m))"
  using list_sorted [of limit d] getHotSearches_prefix [of limit d] ranking_same_data [of tbl m]
  by (intro conjI impI)

lemmas accept_defs =
  trim_def js_def isWhiteSpace_def isForbidden_def forbiddenPatterns_def
  matchAlternation_def canonicalize_def

lemma accepted_a: "trim (js ''a'') \<noteq> [] \<and> \<not> isForbidden (js ''a'')"
  by (simp add: accept_defs)

lemma accepted_b: "trim (js ''b'') \<noteq> [] \<and> \<not> isForbidden (js ''b'')"
  by (simp add: accept_defs)

lemma accepted_spaced_a: "trim (js '' a '') \<noteq> [] \<and> \<not> isForbidden (js '' a '')"
  by (simp add: accept_defs)

lemma record_a_b:
  "recordSearch 2 (js ''b'') (recordSearch 1 (js ''a'') (Memory []))
     = Memory [(js ''a'', \<lparr>term' = js ''a'', score = 1, lastSearched = 1, createdAt = 1\<rparr>),
               (js ''b'', \<lparr>term' = js ''b'', score = 1, lastSearched = 2, createdAt = 2\<rparr>)]"
  using accepted_a accepted_b
  by (simp add: recordSearch_Memory insertRun_def) (simp add: js_def)

lemma record_spaced_a_a:
  "recordSearch 2 (js ''a'') (recordSearch 1 (js '' a '') (Memory []))
     = Memory [(js '' a '', \<lparr>term' = js '' a '', score = 1, lastSearched = 1, createdAt = 1\<rparr>),
               (js ''a'', \<lparr>term' = js ''a'', score = 1, lastSearched = 2, createdAt = 2\<rparr>)]"
  using accepted_a accepted_spaced_a
  by (simp add: recordSearch_Memory insertRun_def) (simp add: js_def)

text \<open>
  Claim C6, as stated: a negative limit yields an empty result. It does not: after two
  terms are recorded in the memory fallback, \<^verbatim>\<open>getHotSearches(-1)\<close> returns one record.
\<close>

theorem list_negative_limit_counterexample:
  "getHotSearches (- 1) (recordSearch 2 (js ''b'') (recordSearch 1 (js ''a'') (Memory [])))
     = [\<lparr>term' = js ''b'', score = 1, lastSearched = 2, createdAt = 2\<rparr>]"
  unfolding record_a_b
  by (simp add: getHotSearches_Memory sortBy_def compareItems_def slice0_def MAX_ENTRIES_def)

text \<open>
  Claim C5, as stated: the term is trimmed before it is used as the key, so
  \<^verbatim>\<open>record(" a ")\<close> and \<^verbatim>\<open>record("a")\<close> refer to the same record. They do not: recorded
  one after the other they leave two records, each of score 1.
\<close>

theorem record_untrimmed_counterexample:
  "getHotSearches 50 (recordSearch 2 (js ''a'') (recordSearch 1 (js '' a '') (Memory [])))
     = [\<lparr>term' = js ''a'', score = 1, lastSearched = 2, createdAt = 2\<rparr>,
        \<lparr>term' = js '' a '', score = 1, lastSearched = 1, createdAt = 1\<rparr>]"
  unfolding record_spaced_a_a
  by (simp add: getHotSearches_Memory sortBy_def compareItems_def slice0_def MAX_ENTRIES_def)

lemma ranking_example:
  "ranking (Memory [(js ''a'', \<lparr>term' = js ''a'', score = 1, lastSearched = 1, createdAt = 1\<rparr>),
                    (js ''b'', \<lparr>term' = js ''b'', score = 1, lastSearched = 2, createdAt = 2\<rparr>),
                    (js ''c'', \<lparr>term' = js ''c'', score = 3, lastSearched = 0, createdAt = 0\<rparr>)])
     = [\<lparr>term' = js ''c'', score = 3, lastSearched = 0, createdAt = 0\<rparr>,
        \<lparr>term' = js ''b'', score = 1, lastSearched = 2, createdAt = 2\<rparr>,
        \<lparr>term' = js ''a'', score = 1, lastSearched = 1, createdAt = 1\<rparr>]"
  by (simp add: ranking_def sortBy_def compareItems_def)

theorem list_limit_witness:
  "getHotSearches 2
      (Memory [(js ''a'', \<lparr>term' = js ''a'', score = 1, lastSearched = 1, createdAt = 1\<rparr>),
               (js ''b'', \<lparr>term' = js ''b'', score = 1, lastSearched = 2, createdAt = 2\<rparr>),
               (js ''c'', \<lparr>term' = js ''c'', score = 3, lastSearched = 0, createdAt = 0\<rparr>)])
     = [\<lparr>term' = js ''c'', score = 3, lastSearched = 0, createdAt = 0\<rparr>,
        \<lparr>term' = js ''b'', score = 1, lastSearched = 2, createdAt = 2\<rparr>]
   \<and> getHotSearches 100
      (Memory [(js ''a'', \<lparr>term' = js ''a'', score = 1, lastSearched = 1, createdAt = 1\<rparr>),
               (js ''b'', \<lparr>term' = js ''b'', score = 1, lastSearched = 2, createdAt = 2\<rparr>),
               (js ''c'', \<lparr>term' = js ''c'', score = 3, lastSearched = 0, createdAt = 0\<rparr>)])
     = getHotSearches 50
      (Memory [(js ''a'', \<lparr>term' = js ''a'', score = 1, lastSearched = 1, createdAt = 1\<rparr>),
               (js ''b'', \<lparr>term' = js ''b'', score = 1, lastSearched = 2, createdAt = 2\<rparr>),
               (js ''c'', \<lparr>term' = js ''c'', score = 3, lastSearched = 0, createdAt = 0\<rparr>)])"
proof -
  let ?m = "[(js ''a'', \<lparr>term' = js ''a'', score = 1, lastSearched = 1, createdAt = 1\<rparr>),
             (js ''b'', \<lparr>term' = js ''b'', score = 1, lastSearched = 2, createdAt = 2\<rparr>),
             (js ''c'', \<lparr>term' = js ''c'', score = 3, lastSearched = 0, createdAt = 0\<rparr>)]"
  have p: "(0::int) \<le> 2"
    by simp
  have a: "getHotSearches 2 (Memory ?m) = take (nat (min 2 MAX_ENTRIES)) (ranking (Memory ?m))"
    by (rule list_limit [of 2 "Memory ?m", THEN conjunct2, THEN mp, OF p, THEN conjunct1])
  have c: "min 100 MAX_ENTRIES = 50"
    by (simp add: MAX_ENTRIES_def)
  have b: "getHotSearches 100 (Memory ?m) = getHotSearches 50 (Memory ?m)"
    using list_limit [of 100 "Memory ?m", THEN conjunct1] unfolding c .
  have "take (nat (min 2 MAX_ENTRIES)) (ranking (Memory ?m))
          = [\<lparr>term' = js ''c'', score = 3, lastSearched = 0, createdAt = 0\<rparr>,
             \<lparr>term' = js ''b'', score = 1, lastSearched = 2, createdAt = 2\<rparr>]"
    unfolding ranking_example by (simp add: MAX_ENTRIES_def)
  then show ?thesis
    using a b by (simp only: simp_thms)
qed

theorem list_order_witness:
  "sorted_wrt ranksBefore
     (getHotSearches 10
        (Memory [(js ''a'', \<lparr>term' = js ''a'', score = 1, lastSearched = 1, createdAt = 1\<rparr>),
                 (js ''b'', \<lparr>term' = js ''b'', score = 1, lastSearched = 2, createdAt = 2\<rparr>),
                 (js ''c'', \<lparr>term' = js ''c'', score = 3, lastSearched = 0, createdAt = 0\<rparr>)]))
   \<and> getHotSearches 10
        (Memory [(js ''a'', \<lparr>term' = js ''a'', score = 1, lastSearched = 1, createdAt = 1\<rparr>),
                 (js ''b'', \<lparr>term' = js ''b'', score = 1, lastSearched = 2, createdAt = 2\<rparr>),
                 (js ''c'', \<lparr>term' = js ''c'', score = 3, lastSearched = 0, createdAt = 0\<rparr>)])
     = [\<lparr>term' = js ''c'', score = 3, lastSearched = 0, createdAt = 0\<rparr>,
        \<lparr>term' = js ''b'', score = 1, lastSearched = 2, createdAt = 2\<rparr>,
        \<lparr>term' = js ''a'', score = 1, lastSearched = 1, createdAt = 1\<rparr>]"
proof -
  let ?m = "[(js ''a'', \<lparr>term' = js ''a'', score = 1, lastSearched = 1, createdAt = 1\<rparr>),
             (js ''b'', \<lparr>term' = js ''b'', score = 1, lastSearched = 2, createdAt = 2\<rparr>),
             (js ''c'', \<lparr>term' = js ''c'', score = 3, lastSearched = 0, createdAt = 0\<rparr>)]"
  have s: "sorted_wrt ranksBefore (getHotSearches 10 (Memory ?m))"
    by (rule list_order [of 10 "Memory ?m", THEN conjunct1])
  have e: "getHotSearches 10 (Memory ?m) = take (nat (min 10 MAX_ENTRIES)) (ranking (Memory ?m))"
    by (rule getHotSearches_nonneg) simp
  have v: "take (nat (min 10 MAX_ENTRIES)) (ranking (Memory ?m)) = ranking (Memory ?m)"
    unfolding ranking_example by (simp add: MAX_ENTRIES_def)
  show ?thesis
    using s e v ranking_example by (simp only: simp_thms)
qed

lemma filter_key_mapSet_other:
  "k \<noteq> t \<Longrightarrow> filter (\<lambda>e. fst e = k) (mapSet m t v) = filter (\<lambda>e. fst e = k) m"
  by (induction m) auto

lemma filter_key_mapSet_same:
  "filter (\<lambda>e. fst e = t) (mapSet m t v) = (t, v) # tl (filter (\<lambda>e. fst e = t) m)"
  by (induction m) auto


lemma dbRecords_insertRun_other:
  "k \<noteq> t \<Longrightarrow> dbRecords k (Memory (insertRun t a b now m)) = dbRecords k (Memory m)"
  by (simp add: dbRecords_def insertRun_def filter_key_mapSet_other split: option.split)



lemma dbRecords_insertRun_nonempty: "dbRecords t (Memory (insertRun t a b now m)) \<noteq> []"
  by (simp add: dbRecords_def insertRun_def filter_key_mapSet_same split: option.split)

lemma rows_sqlUpsert_other:
  "k \<noteq> t \<Longrightarrow> filter (\<lambda>r. term_col r = k) (tbl_rows (sqlUpsert t a b now tbl))
                 = filter (\<lambda>r. term_col r = k) (tbl_rows tbl)"
proof -
  assume kt: "k \<noteq> t"
  have "filter (\<lambda>r. term_col r = k)
          (map (\<lambda>r::row. if term_col r = t
                          then r\<lparr>score_col := score_col r + 1, last_searched := now\<rparr> else r) rs)
        = filter (\<lambda>r. term_col r = k) rs" for rs
    using kt by (induction rs) auto
  then show ?thesis
    using kt by (simp add: sqlUpsert_def Let_def)
qed

lemma dbRecords_Sqlite_record_other:
  assumes "k \<noteq> t"
  shows "set (dbRecords k (Sqlite (snd (sqlDeleteNotInTop n (sqlUpsert t a b now tbl)))))
           \<subseteq> set (dbRecords k (Sqlite tbl))"
proof -
  define up where "up = sqlUpsert t a b now tbl"
  define P where "P = (\<lambda>r::row. id_col r \<in> set (map id_col (sqlLimit n (orderBy (tbl_rows up)))))"
  have rows: "tbl_rows (snd (sqlDeleteNotInTop n up)) = filter P (tbl_rows up)"
    unfolding P_def by (rule tbl_rows_deleteNotInTop)
  have "filter (\<lambda>r. term_col r = k) (filter P (tbl_rows up))
          = filter P (filter (\<lambda>r. term_col r = k) (tbl_rows up))"
    by (simp add: conj_commute)
  also have "\<dots> = filter P (filter (\<lambda>r. term_col r = k) (tbl_rows tbl))"
    unfolding up_def by (simp only: rows_sqlUpsert_other [OF assms])
  finally have "set (filter (\<lambda>r. term_col r = k) (tbl_rows (snd (sqlDeleteNotInTop n up))))
                  \<subseteq> set (filter (\<lambda>r. term_col r = k) (tbl_rows tbl))"
    unfolding rows by auto
  then show ?thesis
    unfolding up_def dbRecords_def by auto
qed

lemma sqlDeleteNotInTop_small:
  assumes "int (length (tbl_rows tbl)) \<le> n"
  shows "snd (sqlDeleteNotInTop n tbl) = tbl"
proof -
  have "sqlLimit n (orderBy (tbl_rows tbl)) = orderBy (tbl_rows tbl)"
    using assms by (simp add: sqlLimit_def orderBy_def)
  then have "set (map id_col (sqlLimit n (orderBy (tbl_rows tbl)))) = id_col ` set (tbl_rows tbl)"
    by (simp add: orderBy_def)
  then have "filter (\<lambda>r. id_col r \<in> set (map id_col (sqlLimit n (orderBy (tbl_rows tbl)))))
               (tbl_rows tbl) = tbl_rows tbl"
    by simp
  then show ?thesis
    by (simp add: sqlDeleteNotInTop_def Let_def)
qed

lemma length_sqlUpsert:
  "length (tbl_rows (sqlUpsert t a b now tbl)) \<le> Suc (length (tbl_rows tbl))"
  by (simp add: sqlUpsert_def Let_def)

lemma length_sqlUpsert_old:
  assumes "dbRecords t (Sqlite tbl) \<noteq> []"
  shows "length (tbl_rows (sqlUpsert t a b now tbl)) = length (tbl_rows tbl)"
proof -
  have "filter (\<lambda>r. term_col r = t) (tbl_rows tbl) \<noteq> []"
    using assms by (simp add: dbRecords_def)
  then have "list_ex (\<lambda>r. term_col r = t) (tbl_rows tbl)"
    by (simp add: list_ex_iff filter_empty_conv)
  then show ?thesis
    by (simp add: sqlUpsert_def Let_def)
qed

lemma recordSearch_Sqlite_kept:
  assumes "trim t \<noteq> []" and "\<not> isForbidden t"
    and "length (tbl_rows (sqlUpsert (sqliteText t) now now now tbl)) \<le> 50"
  shows "recordSearch now t (Sqlite tbl) = Sqlite (sqlUpsert (sqliteText t) now now now tbl)"
proof -
  have "int (length (tbl_rows (sqlUpsert (sqliteText t) now now now tbl))) \<le> MAX_ENTRIES"
    using assms(3) by (simp add: MAX_ENTRIES_def)
  then have "snd (sqlDeleteNotInTop MAX_ENTRIES (sqlUpsert (sqliteText t) now now now tbl))
               = sqlUpsert (sqliteText t) now now now tbl"
    by (rule sqlDeleteNotInTop_small)
  then show ?thesis
    using assms(1,2) by (simp add: recordSearch_Sqlite)
qed

lemma recordSearch_Sqlite_room:
  assumes "trim t \<noteq> []" and "\<not> isForbidden t" and "length (tbl_rows tbl) < 50"
  shows "recordSearch now t (Sqlite tbl) = Sqlite (sqlUpsert (sqliteText t) now now now tbl)"
proof (rule recordSearch_Sqlite_kept [OF assms(1,2)])
  show "length (tbl_rows (sqlUpsert (sqliteText t) now now now tbl)) \<le> 50"
    using length_sqlUpsert [of "sqliteText t" now now now tbl] assms(3) by linarith
qed

lemma dbRecords_sqlUpsert_new:
  assumes "dbRecords t (Sqlite tbl) = []"
  shows "dbRecords t (Sqlite (sqlUpsert t a b now tbl))
           = [\<lparr>term' = t, score = 1, lastSearched = a, createdAt = b\<rparr>]"
proof -
  have e: "filter (\<lambda>r. term_col r = t) (tbl_rows tbl) = []"
    using assms by (simp add: dbRecords_def)
  then have "\<not> list_ex (\<lambda>r. term_col r = t) (tbl_rows tbl)"
    by (simp add: list_ex_iff filter_empty_conv)
  then show ?thesis
    using e by (simp add: dbRecords_def sqlUpsert_def Let_def rowItem_def)
qed


lemma dbRecords_sqlUpsert_nonempty: "dbRecords t (Sqlite (sqlUpsert t a b now tbl)) \<noteq> []"
proof (cases "list_ex (\<lambda>r. term_col r = t) (tbl_rows tbl)")
  case True
  define inc where "inc = (\<lambda>r::row. if term_col r = t
                       then r\<lparr>score_col := score_col r + 1, last_searched := now\<rparr> else r)"
  from True obtain r where r: "r \<in> set (tbl_rows tbl)" "term_col r = t"
    by (auto simp add: list_ex_iff)
  have up: "tbl_rows (sqlUpsert t a b now tbl) = map inc (tbl_rows tbl)"
    using True by (simp add: sqlUpsert_def Let_def inc_def)
  have "inc r \<in> set (map inc (tbl_rows tbl))"
    using r(1) by simp
  moreover have "term_col (inc r) = t"
    using r(2) by (simp add: inc_def)
  ultimately have "filter (\<lambda>r. term_col r = t) (map inc (tbl_rows tbl)) \<noteq> []"
    unfolding filter_empty_conv by blast
  then show ?thesis
    by (simp add: dbRecords_def up)
next
  case False
  then show ?thesis
    by (simp add: dbRecords_def sqlUpsert_def Let_def)
qed

lemma dbRecords_sqlUpsert_other:
  "k \<noteq> t \<Longrightarrow> dbRecords k (Sqlite (sqlUpsert t a b now tbl)) = dbRecords k (Sqlite tbl)"
  by (simp add: dbRecords_def rows_sqlUpsert_other)

lemma record_first_Sqlite_full:
  assumes acc: "trim t \<noteq> []" "\<not> isForbidden t"
    and fresh: "dbRecords (sqliteText t) (Sqlite tbl) = []"
    and ids: "distinct (map id_col (tbl_rows tbl))"
    and len: "length (tbl_rows tbl) = 50"
    and r: "r \<in> set (tbl_rows tbl)"
    and low: "score_col r < 1 \<or> (score_col r = 1 \<and> last_searched r < now)"
  shows "\<exists>tbl'. recordSearch now t (Sqlite tbl) = Sqlite tbl'
           \<and> length (tbl_rows tbl') \<le> 50
           \<and> dbRecords (sqliteText t) (Sqlite tbl')
               = [\<lparr>term' = sqliteText t, score = 1, lastSearched = now, createdAt = now\<rparr>]"
proof -
  define key where "key = sqliteText t"
  define new where "new = \<lparr>id_col = Suc (fold max (map id_col (tbl_rows tbl)) (tbl_seq tbl)),
                  term_col = key, score_col = 1, last_searched = now, created_at = now\<rparr>"
  define up where "up = sqlUpsert key now now now tbl"
  define f where "f = (\<lambda>r::row. (- score_col r, - last_searched r))"
  define xs where "xs = orderBy (tbl_rows up)"
  define P where "P = (\<lambda>x::row. id_col x \<in> set (map id_col (sqlLimit MAX_ENTRIES xs)))"
  have none: "filter (\<lambda>r. term_col r = key) (tbl_rows tbl) = []"
    using fresh by (simp add: dbRecords_def key_def)
  then have "key \<notin> set (map term_col (tbl_rows tbl))"
    by (auto simp add: filter_empty_conv)
  then have rows: "tbl_rows up = tbl_rows tbl @ [new]"
    unfolding up_def new_def by (simp add: sqlUpsert_fresh)
  have d: "distinct (map id_col (tbl_rows up))"
    unfolding up_def using ids by (rule distinct_ids_sqlUpsert)
  have s: "sorted (map f xs)"
    unfolding xs_def orderBy_def f_def by (rule sorted_sort_key)
  have set_xs: "set xs = set (tbl_rows up)"
    unfolding xs_def orderBy_def by simp
  have len_xs: "length xs = Suc 50"
    unfolding xs_def orderBy_def using rows len by simp
  have "f new < f r"
    using low by (auto simp add: f_def new_def less_prod_def)
  moreover have "new \<in> set xs" "r \<in> set xs"
    using r by (simp_all add: set_xs rows)
  ultimately have "new \<in> set (take 50 xs)"
    using s len_xs by (intro in_take_of_sorted [of f xs new r 50])
  then have "new \<in> set (sqlLimit MAX_ENTRIES xs)"
    by (simp add: sqlLimit_def MAX_ENTRIES_def)
  then have Pnew: "P new"
    unfolding P_def by simp
  have after: "tbl_rows (snd (sqlDeleteNotInTop MAX_ENTRIES up)) = filter P (tbl_rows up)"
    unfolding P_def xs_def by (rule tbl_rows_deleteNotInTop)
  have "length (filter P (tbl_rows up)) \<le> length (map id_col (sqlLimit MAX_ENTRIES xs))"
    unfolding P_def using d by (rule length_filter_by_ids)
  also have "\<dots> \<le> 50"
    by (simp add: sqlLimit_def MAX_ENTRIES_def)
  finally have l: "length (tbl_rows (snd (sqlDeleteNotInTop MAX_ENTRIES up))) \<le> 50"
    by (simp only: after)
  have "filter (\<lambda>r. term_col r = key) (filter P (tbl_rows up))
          = filter P (filter (\<lambda>r. term_col r = key) (tbl_rows up))"
    by (simp add: conj_commute)
  also have "filter (\<lambda>r. term_col r = key) (tbl_rows up) = [new]"
    using none by (simp add: rows new_def)
  also have "filter P [new] = [new]"
    using Pnew by simp
  finally have "dbRecords key (Sqlite (snd (sqlDeleteNotInTop MAX_ENTRIES up))) = [rowItem new]"
    by (simp add: dbRecords_def after)
  then have rec: "dbRecords key (Sqlite (snd (sqlDeleteNotInTop MAX_ENTRIES up)))
                    = [\<lparr>term' = key, score = 1, lastSearched = now, createdAt = now\<rparr>]"
    by (simp add: rowItem_def new_def)
  have "recordSearch now t (Sqlite tbl) = Sqlite (snd (sqlDeleteNotInTop MAX_ENTRIES up))"
    using acc by (simp add: recordSearch_Sqlite up_def key_def)
  then show ?thesis
    using l rec unfolding key_def by simp
qed

lemma record_first_Sqlite:
  assumes acc: "trim t \<noteq> []" "\<not> isForbidden t"
    and fresh: "dbRecords (sqliteText t) (Sqlite tbl) = []"
    and room: "hasRoomFor now tbl"
  shows "\<exists>tbl'. recordSearch now t (Sqlite tbl) = Sqlite tbl'
           \<and> length (tbl_rows tbl') \<le> 50
           \<and> dbRecords (sqliteText t) (Sqlite tbl')
               = [\<lparr>term' = sqliteText t, score = 1, lastSearched = now, createdAt = now\<rparr>]"
proof (cases "length (tbl_rows tbl) < 50")
  case True
  let ?up = "sqlUpsert (sqliteText t) now now now tbl"
  have "recordSearch now t (Sqlite tbl) = Sqlite ?up"
    using acc True by (rule recordSearch_Sqlite_room)
  moreover have "length (tbl_rows ?up) \<le> 50"
    using length_sqlUpsert [of "sqliteText t" now now now tbl] True by linarith
  moreover have "dbRecords (sqliteText t) (Sqlite ?up)
                   = [\<lparr>term' = sqliteText t, score = 1, lastSearched = now, createdAt = now\<rparr>]"
    using fresh by (rule dbRecords_sqlUpsert_new)
  ultimately show ?thesis
    by simp
next
  case False
  then have full: "length (tbl_rows tbl) = 50" "distinct (map id_col (tbl_rows tbl))"
    and ex: "list_ex (\<lambda>r. score_col r < 1 \<or> (score_col r = 1 \<and> last_searched r < now))
               (tbl_rows tbl)"
    using room by (simp_all add: hasRoomFor_def MAX_ENTRIES_def)
  from ex obtain r where "r \<in> set (tbl_rows tbl)"
    and "score_col r < 1 \<or> (score_col r = 1 \<and> last_searched r < now)"
    unfolding list_ex_iff by (elim bexE)
  with acc fresh full(2,1) show ?thesis
    by (rule record_first_Sqlite_full)
qed

lemma hasRoomFor_length: "hasRoomFor now tbl \<Longrightarrow> length (tbl_rows tbl) \<le> 50"
  by (auto simp add: hasRoomFor_def MAX_ENTRIES_def)

lemma record_present_Sqlite:
  assumes acc: "trim t \<noteq> []" "\<not> isForbidden t"
    and room: "hasRoomFor now tbl"
  shows "dbRecords (sqliteText t) (recordSearch now t (Sqlite tbl)) \<noteq> []"
proof (cases "dbRecords (sqliteText t) (Sqlite tbl) = []")
  case True
  from record_first_Sqlite [OF acc True room]
  obtain tbl' where "recordSearch now t (Sqlite tbl) = Sqlite tbl'"
    and "dbRecords (sqliteText t) (Sqlite tbl')
           = [\<lparr>term' = sqliteText t, score = 1, lastSearched = now, createdAt = now\<rparr>]"
    by (elim exE conjE)
  then show ?thesis
    by simp
next
  case False
  let ?up = "sqlUpsert (sqliteText t) now now now tbl"
  have "length (tbl_rows ?up) \<le> 50"
    using hasRoomFor_length [OF room] by (simp only: length_sqlUpsert_old [OF False])
  with acc have "recordSearch now t (Sqlite tbl) = Sqlite ?up"
    by (rule recordSearch_Sqlite_kept)
  then show ?thesis
    by (simp only: dbRecords_sqlUpsert_nonempty not_False_eq_True)
qed

text \<open>
  Claim C5, amended. \<^verbatim>\<open>recordSearch\<close> trims the term only to decide whether it is blank;
  the key is the term as it was passed. In the memory fallback the key is \<open>t\<close> itself:
  after an accepted call the key \<open>t\<close> holds a record, and the records under every other
  key are what they were. In the SQLite table the key is the text the engine stores for
  \<open>t\<close>, which is \<open>t\<close> itself when \<open>t\<close> is well formed: the records under every other
  key are among those before the call, and are what they were when the table is not
  full; the key holds a record when the table has room for a new row. The trimmed term,
  when it differs from \<open>t\<close>, is another key, in the table too.
\<close>

theorem record_key_untrimmed:
  assumes "trim t \<noteq> []" and "\<not> isForbidden t"
  shows "dbRecords t (recordSearch now t (Memory m)) \<noteq> []
         \<and> (k \<noteq> t \<longrightarrow> dbRecords k (recordSearch now t (Memory m)) = dbRecords k (Memory m))
         \<and> (k \<noteq> sqliteText t \<longrightarrow>
              set (dbRecords k (recordSearch now t (Sqlite tbl))) \<subseteq> set (dbRecords k (Sqlite tbl)))
         \<and> (k \<noteq> sqliteText t \<and> int (length (tbl_rows tbl)) < MAX_ENTRIES \<longrightarrow>
              dbRecords k (recordSearch now t (Sqlite tbl)) = dbRecords k (Sqlite tbl))
         \<and> (hasRoomFor now tbl \<longrightarrow>
              dbRecords (sqliteText t) (recordSearch now t (Sqlite tbl)) \<noteq> [])
         \<and> (isWellFormed t \<longrightarrow> sqliteText t = t)
         \<and> (trim t \<noteq> t \<longrightarrow> sqliteText (trim t) \<noteq> sqliteText t)"
proof (intro conjI impI)
  show "dbRecords t (recordSearch now t (Memory m)) \<noteq> []"
    using assms by (simp add: recordSearch_Memory dbRecords_insertRun_nonempty)
next
  assume "k \<noteq> t"
  then show "dbRecords k (recordSearch now t (Memory m)) = dbRecords k (Memory m)"
    using assms by (simp add: recordSearch_Memory dbRecords_insertRun_other)
next
  assume "k \<noteq> sqliteText t"
  then have "set (dbRecords k (Sqlite (snd (sqlDeleteNotInTop MAX_ENTRIES
                                             (sqlUpsert (sqliteText t) now now now tbl)))))
               \<subseteq> set (dbRecords k (Sqlite tbl))"
    by (rule dbRecords_Sqlite_record_other)
  then show "set (dbRecords k (recordSearch now t (Sqlite tbl))) \<subseteq> set (dbRecords k (Sqlite tbl))"
    using assms by (simp add: recordSearch_Sqlite)
next
  assume a: "k \<noteq> sqliteText t \<and> int (length (tbl_rows tbl)) < MAX_ENTRIES"
  then have "length (tbl_rows tbl) < 50"
    by (simp add: MAX_ENTRIES_def)
  with assms
  have r: "recordSearch now t (Sqlite tbl) = Sqlite (sqlUpsert (sqliteText t) now now now tbl)"
    by (rule recordSearch_Sqlite_room)
  from a have "k \<noteq> sqliteText t"
    by simp
  then show "dbRecords k (recordSearch now t (Sqlite tbl)) = dbRecords k (Sqlite tbl)"
    unfolding r by (rule dbRecords_sqlUpsert_other)
next
  assume "hasRoomFor now tbl"
  with assms show "dbRecords (sqliteText t) (recordSearch now t (Sqlite tbl)) \<noteq> []"
    by (rule record_present_Sqlite)
next
  assume "isWellFormed t"
  then show "sqliteText t = t"
    by (simp only: sqliteText_wellFormed)
next
  assume "trim t \<noteq> t"
  then show "sqliteText (trim t) \<noteq> sqliteText t"
    by (rule sqliteText_trim_differs)
qed

theorem record_key_untrimmed_witness:
  "dbRecords (js '' a '')
     (recordSearch 2 (js '' a '')
        (Memory [(js ''a'', \<lparr>term' = js ''a'', score = 1, lastSearched = 1, createdAt = 1\<rparr>)]))
     \<noteq> []
   \<and> dbRecords (js ''a'')
     (recordSearch 2 (js '' a '')
        (Memory [(js ''a'', \<lparr>term' = js ''a'', score = 1, lastSearched = 1, createdAt = 1\<rparr>)]))
     = [\<lparr>term' = js ''a'', score = 1, lastSearched = 1, createdAt = 1\<rparr>]
   \<and> dbRecords (js '' a '')
     (recordSearch 2 (js '' a '')
        (Sqlite \<lparr>tbl_rows = [\<lparr>id_col = 1, term_col = js ''a'', score_col = 1,
                               last_searched = 1, created_at = 1\<rparr>], tbl_seq = 1\<rparr>))
     \<noteq> []
   \<and> dbRecords (js ''a'')
     (recordSearch 2 (js '' a '')
        (Sqlite \<lparr>tbl_rows = [\<lparr>id_col = 1, term_col = js ''a'', score_col = 1,
                               last_searched = 1, created_at = 1\<rparr>], tbl_seq = 1\<rparr>))
     = [\<lparr>term' = js ''a'', score = 1, lastSearched = 1, createdAt = 1\<rparr>]"
proof -
  let ?m = "[(js ''a'', \<lparr>term' = js ''a'', score = 1, lastSearched = 1, createdAt = 1\<rparr>)]"
  let ?tbl = "\<lparr>tbl_rows = [\<lparr>id_col = 1, term_col = js ''a'', score_col = 1,
                             last_searched = 1, created_at = 1\<rparr>], tbl_seq = 1\<rparr>"
  have t: "trim (js '' a '') \<noteq> []" and f: "\<not> isForbidden (js '' a '')"
    using accepted_spaced_a by simp_all
  have k: "js ''a'' \<noteq> js '' a ''"
    by (simp add: js_def)
  have wf: "isWellFormed (js '' a '')"
    by (simp add: js_def isHighSurrogate_def isLowSurrogate_def)
  have room: "hasRoomFor 2 ?tbl"
    by (simp add: hasRoomFor_def MAX_ENTRIES_def)
  have small: "js ''a'' \<noteq> js '' a '' \<and> int (length (tbl_rows ?tbl)) < MAX_ENTRIES"
    by (simp add: js_def MAX_ENTRIES_def)
  note w = record_key_untrimmed [OF t f, where now = 2 and m = ?m and k = "js ''a''"
      and tbl = ?tbl]
  have key: "sqliteText (js '' a '') = js '' a ''"
    by (rule w [THEN conjunct2, THEN conjunct2, THEN conjunct2, THEN conjunct2, THEN conjunct2,
        THEN conjunct1, THEN mp, OF wf])
  have a: "dbRecords (js '' a '') (recordSearch 2 (js '' a '') (Memory ?m)) \<noteq> []"
    by (rule w [THEN conjunct1])
  have b: "dbRecords (js ''a'') (recordSearch 2 (js '' a '') (Memory ?m))
             = dbRecords (js ''a'') (Memory ?m)"
    by (rule w [THEN conjunct2, THEN conjunct1, THEN mp, OF k])
  have c: "dbRecords (js '' a '') (recordSearch 2 (js '' a '') (Sqlite ?tbl)) \<noteq> []"
    by (rule w [unfolded key, THEN conjunct2, THEN conjunct2, THEN conjunct2, THEN conjunct2,
        THEN conjunct1, THEN mp, OF room])
  have d: "dbRecords (js ''a'') (recordSearch 2 (js '' a '') (Sqlite ?tbl))
             = dbRecords (js ''a'') (Sqlite ?tbl)"
    by (rule w [unfolded key, THEN conjunct2, THEN conjunct2, THEN conjunct2, THEN conjunct1,
        THEN mp, OF small])
  have e: "dbRecords (js ''a'') (Memory ?m)
             = [\<lparr>term' = js ''a'', score = 1, lastSearched = 1, createdAt = 1\<rparr>]"
    by (simp add: dbRecords_def)
  have g: "dbRecords (js ''a'') (Sqlite ?tbl)
             = [\<lparr>term' = js ''a'', score = 1, lastSearched = 1, createdAt = 1\<rparr>]"
    by (simp add: dbRecords_def rowItem_def)
  show ?thesis
    using a b c d unfolding e g by (simp only: simp_thms)
qed

subsection \<open>Recording a term repeatedly\<close>






subsection \<open>The capacity bound\<close>

lemma testTerm_inj:
  assumes "i < 100" and "j < 100" and "testTerm i = testTerm j"
  shows "i = j"
proof -
  have "i div 10 = j div 10" and "i mod 10 = j mod 10"
    using assms(3) by (simp_all add: testTerm_def)
  then show ?thesis
    by (metis div_mult_mod_eq)
qed

lemma accepted_testTerm_trim:
  shows "trim (testTerm i) \<noteq> []"
proof -
  have "\<not> isWhiteSpace 116"
    by (simp add: isWhiteSpace_def)
  then show "trim (testTerm i) \<noteq> []"
    by (auto simp add: trim_Nil_iff testTerm_def)
qed

lemma not_containsIgnoringCase:
  assumes "length t < length k \<or> (\<exists>c\<in>set k. lowerCase c \<notin> set (map lowerCase t))"
  shows "\<not> containsIgnoringCase t k"
proof
  assume "containsIgnoringCase t k"
  then have s: "sublist (map lowerCase k) (map lowerCase t)"
    by (simp add: containsIgnoringCase_def)
  then have "length (map lowerCase k) \<le> length (map lowerCase t)"
    by (rule sublist_length_le)
  moreover have "set (map lowerCase k) \<subseteq> set (map lowerCase t)"
    using s by (rule set_mono_sublist)
  ultimately show False
    using assms by auto
qed

lemma lowerCase_testTerm:
  assumes "i < 100"
  shows "map lowerCase (testTerm i) = testTerm i"
proof -
  have "i div 10 \<le> 9" and "i mod 10 \<le> 9"
    using assms by simp_all
  then show ?thesis
    by (simp add: testTerm_def lowerCase_def)
qed

lemma testTerm_chars: "c \<in> set (testTerm i) \<Longrightarrow> i < 100 \<Longrightarrow> c \<le> 116"
proof -
  assume c: "c \<in> set (testTerm i)" and i: "i < 100"
  have "i div 10 \<le> 9" and "i mod 10 \<le> 9"
    using i by simp_all
  then show ?thesis
    using c by (auto simp add: testTerm_def)
qed

lemma sqliteText_testTerm:
  assumes "i < 100"
  shows "sqliteText (testTerm i) = testTerm i"
proof -
  have "\<forall>c\<in>set (testTerm i). c < 55296"
  proof
    fix c
    assume "c \<in> set (testTerm i)"
    then have "c \<le> 116"
      using assms by (rule testTerm_chars)
    then show "c < 55296"
      by simp
  qed
  then have "isWellFormed (testTerm i)"
    by (rule wellFormed_plain)
  then show ?thesis
    by (simp only: sqliteText_wellFormed)
qed

lemma testTerm_allowed:
  assumes "i < 100"
  shows "\<not> isForbidden (testTerm i)"
proof -
  have len: "length (testTerm i) = 3"
    by (simp add: testTerm_def)
  have big: "\<not> containsIgnoringCase (testTerm i) k"
    if "\<exists>c\<in>set k. 116 < lowerCase c" for k
  proof (rule not_containsIgnoringCase, rule disjI2)
    from that obtain c where c: "c \<in> set k" "116 < lowerCase c" by blast
    have "lowerCase c \<notin> set (testTerm i)"
      using testTerm_chars [of "lowerCase c" i] assms c(2) by auto
    then show "\<exists>c\<in>set k. lowerCase c \<notin> set (map lowerCase (testTerm i))"
      using c(1) by (auto simp only: lowerCase_testTerm [OF assms])
  qed
  have long: "\<not> containsIgnoringCase (testTerm i) k" if "3 < length k" for k
    by (rule not_containsIgnoringCase) (simp add: len that)
  have "\<not> containsIgnoringCase (testTerm i) k" if "k \<in> set forbiddenKeywords" for k
  proof -
    have "(\<exists>c\<in>set k. 116 < lowerCase c) \<or> 3 < length k"
      using that by (auto simp add: forbiddenKeywords_def js_def lowerCase_def)
    then show ?thesis
      using big long by blast
  qed
  then show ?thesis
    by (auto simp add: isForbidden_iff)
qed

lemma recordEach_snoc:
  "recordEach (calls @ [(t, now)]) d = recordSearch now t (recordEach calls d)"
  by (simp add: recordEach_def)

lemma distinctCalls_Suc: "distinctCalls (Suc n) = distinctCalls n @ [(testTerm n, int n)]"
  by (simp add: distinctCalls_def)

lemma testTerm_fresh:
  assumes "n < 100" and "set is \<subseteq> {..<100}" and "n \<notin> set is"
  shows "testTerm n \<notin> set (map testTerm is)"
proof
  assume "testTerm n \<in> set (map testTerm is)"
  then obtain j where j: "j \<in> set is" "testTerm n = testTerm j"
    by auto
  then have "j < 100" using assms(2) by auto
  then have "n = j" using assms(1) j(2) by (intro testTerm_inj)
  then show False using j(1) assms(3) by simp
qed

lemma insertRun_fresh:
  assumes "k \<notin> set (map fst m)"
  shows "insertRun k a b now m
           = m @ [(k, \<lparr>term' = k, score = 1, lastSearched = now, createdAt = now\<rparr>)]"
proof -
  have "map_of m k = None"
    using assms by (simp add: map_of_eq_None_iff)
  then show ?thesis
    by (simp add: insertRun_def length_mapSet_new)
qed

lemma memory_distinct_state:
  "n \<le> 100 \<Longrightarrow> recordEach (distinctCalls n) (Memory []) = Memory (map testEntry [0..<n])"
proof (induction n)
  case 0
  show ?case by (simp add: distinctCalls_def recordEach_def)
next
  case (Suc n)
  have n: "n < 100" using Suc.prems by simp
  have st: "recordEach (distinctCalls n) (Memory []) = Memory (map testEntry [0..<n])"
    using Suc by simp
  have keys: "map fst (map testEntry [0..<n]) = map testTerm [0..<n]"
    by (simp add: testEntry_def comp_def)
  have "testTerm n \<notin> set (map testTerm [0..<n])"
    using n by (intro testTerm_fresh) auto
  then have fresh: "testTerm n \<notin> set (map fst (map testEntry [0..<n]))"
    unfolding keys .
  have "recordSearch (int n) (testTerm n) (Memory (map testEntry [0..<n]))
          = Memory (insertRun (testTerm n) (int n) (int n) (int n) (map testEntry [0..<n]))"
    using accepted_testTerm_trim [of n] testTerm_allowed [OF n]
    by (simp add: recordSearch_Memory)
  also have "\<dots> = Memory (map testEntry [0..<n] @ [testEntry n])"
    unfolding insertRun_fresh [OF fresh] by (simp add: testEntry_def)
  finally show ?case
    unfolding distinctCalls_Suc recordEach_snoc st by simp
qed

text \<open>
  Claim C1 at its failing input. The memory fallback is given 51 distinct accepted terms,
  one call each. \<^verbatim>\<open>cleanupOldEntries\<close> prepares the cleanup statement, whose text
  contains \<^verbatim>\<open>SELECT\<close> and \<^verbatim>\<open>FROM hot_searches\<close>, so the fallback's \<^verbatim>\<open>prepare\<close> hands
  out the object of the ranked query, which has no \<^verbatim>\<open>run\<close>; the call raises, the error is
  swallowed, and nothing is ever evicted. The store then holds 51 records, more than
  \<open>MAX_ENTRIES\<close>.
\<close>

theorem memory_exceeds_bound:
  "dbCount (recordEach (distinctCalls 51) (Memory [])) = 51
   \<and> MAX_ENTRIES < int (dbCount (recordEach (distinctCalls 51) (Memory [])))"
proof -
  have "recordEach (distinctCalls 51) (Memory []) = Memory (map testEntry [0..<51])"
    by (rule memory_distinct_state) simp
  then have "dbCount (recordEach (distinctCalls 51) (Memory [])) = length (map testEntry [0..<51])"
    by (simp only: dbCount_def db.case)
  then have c: "dbCount (recordEach (distinctCalls 51) (Memory [])) = 51"
    by (simp only: length_map length_upt)
  show ?thesis
    unfolding c by (simp add: MAX_ENTRIES_def)
qed

theorem memory_exceeds_bound_witness:
  "dbCount (recordEach (distinctCalls 51) (Memory [])) \<noteq> 50"
  unfolding memory_exceeds_bound [THEN conjunct1] by simp

lemma insort_key_last: "(\<forall>y\<in>set ys. f y < f x) \<Longrightarrow> insort_key f x ys = ys @ [x]"
  by (induction ys) (auto simp add: not_le [symmetric])

lemma sort_key_decreasing: "sorted_wrt (\<lambda>a b. f b < f a) xs \<Longrightarrow> sort_key f xs = rev xs"
  by (induction xs) (simp_all add: insort_key_last)

lemma orderBy_newest_first:
  assumes "sorted_wrt older rs"
  shows "orderBy rs = rev rs"
proof -
  have imp: "older a b \<Longrightarrow> (- score_col b, - last_searched b) < (- score_col a, - last_searched a)"
    for a b
    by (simp add: older_def less_prod_def)
  have "sorted_wrt (\<lambda>a b. (- score_col b, - last_searched b)
                              < (- score_col a, - last_searched a)) rs"
    by (rule sorted_wrt_mono_rel [OF _ assms]) (rule imp)
  then show ?thesis
    unfolding orderBy_def by (rule sort_key_decreasing)
qed

lemma cleanup_drops_oldest:
  assumes rows: "tbl_rows tbl = r # rest"
    and len: "length rest = 50"
    and id: "id_col r \<notin> id_col ` set rest"
    and ord: "sorted_wrt older (r # rest)"
  shows "snd (sqlDeleteNotInTop MAX_ENTRIES tbl) = tbl\<lparr>tbl_rows := rest\<rparr>"
proof -
  have "orderBy (tbl_rows tbl) = rev rest @ [r]"
    using orderBy_newest_first [OF ord] rows by simp
  then have "sqlLimit MAX_ENTRIES (orderBy (tbl_rows tbl)) = rev rest"
    using len by (simp add: sqlLimit_def MAX_ENTRIES_def)
  then have ids: "set (map id_col (sqlLimit MAX_ENTRIES (orderBy (tbl_rows tbl))))
                    = id_col ` set rest"
    by simp
  have g: "filter (\<lambda>x. id_col x \<in> id_col ` set rest) (r # rest) = rest"
    using id by simp
  have f: "filter (\<lambda>x. id_col x
                    \<in> set (map id_col (sqlLimit MAX_ENTRIES (orderBy (tbl_rows tbl)))))
                  (tbl_rows tbl) = rest"
    by (simp only: ids) (simp only: rows g)
  show ?thesis
    by (simp only: sqlDeleteNotInTop_def Let_def snd_conv f)
qed

lemma sorted_testRows: "sorted_wrt older (map testRow [a..<b])"
proof -
  have "sorted_wrt (<) [a..<b]"
    by simp
  then have "sorted_wrt (\<lambda>i j. older (testRow i) (testRow j)) [a..<b]"
    by (rule sorted_wrt_mono_rel [rotated]) (simp add: older_def testRow_def)
  then show ?thesis
    by (simp only: sorted_wrt_map)
qed

lemma id_testRow_earlier:
  "k < a \<Longrightarrow> id_col (testRow k) \<notin> id_col ` set (map testRow [a..<b])"
  by (auto simp add: testRow_def)

lemma terms_testRows: "map term_col (map testRow is) = map testTerm is"
  by (simp add: testRow_def comp_def)

lemma fold_max_testRows:
  assumes "b \<le> s"
  shows "fold max (map id_col (map testRow [a..<b])) s = s"
proof (rule fold_max_bounded)
  show "\<forall>x\<in>set (map id_col (map testRow [a..<b])). x \<le> s"
    using assms by (auto simp add: testRow_def)
qed

text \<open>
  The SQLite table does keep the bound: after an accepted call it holds at most
  \<open>MAX_ENTRIES\<close> rows (row ids are unique, as the primary key makes them).
\<close>

lemma sqlite_within_bound:
  assumes "trim t \<noteq> []" and "\<not> isForbidden t"
    and "distinct (map id_col (tbl_rows tbl))"
  shows "int (dbCount (recordSearch now t (Sqlite tbl))) \<le> MAX_ENTRIES"
proof -
  let ?up = "sqlUpsert (sqliteText t) now now now tbl"
  let ?ids = "map id_col (sqlLimit MAX_ENTRIES (orderBy (tbl_rows ?up)))"
  have d: "distinct (map id_col (tbl_rows ?up))"
    using assms(3) by (rule distinct_ids_sqlUpsert)
  have "length (filter (\<lambda>r. id_col r \<in> set ?ids) (tbl_rows ?up)) \<le> length ?ids"
    using d by (rule length_filter_by_ids)
  also have "\<dots> \<le> 50"
    by (simp add: sqlLimit_def MAX_ENTRIES_def)
  finally have "length (tbl_rows (snd (sqlDeleteNotInTop MAX_ENTRIES ?up))) \<le> 50"
    by (simp only: tbl_rows_deleteNotInTop)
  then show ?thesis
    using assms(1,2) by (simp add: recordSearch_Sqlite dbCount_def MAX_ENTRIES_def)
qed

subsection \<open>The two backends compared\<close>

lemma record_fresh_small:
  assumes i: "i < 100"
    and fresh: "testTerm i \<notin> set (map term_col rows)"
    and ids: "\<forall>x\<in>set (map id_col rows). x \<le> s"
    and room: "length rows < 50"
  shows "recordSearch now (testTerm i) (Sqlite \<lparr>tbl_rows = rows, tbl_seq = s\<rparr>)
           = Sqlite \<lparr>tbl_rows = rows @
                       [\<lparr>id_col = Suc s, term_col = testTerm i, score_col = 1,
                         last_searched = now, created_at = now\<rparr>],
                     tbl_seq = Suc s\<rparr>"
proof -
  let ?tbl = "\<lparr>tbl_rows = rows, tbl_seq = s\<rparr>"
  have f: "testTerm i \<notin> set (map term_col (tbl_rows ?tbl))"
    using fresh by simp
  have mx: "fold max (map id_col (tbl_rows ?tbl)) (tbl_seq ?tbl) = s"
    using fold_max_bounded [OF ids] by simp
  have acc: "trim (testTerm i) \<noteq> []" "\<not> isForbidden (testTerm i)"
    using accepted_testTerm_trim [of i] testTerm_allowed [OF i] by simp_all
  have "recordSearch now (testTerm i) (Sqlite ?tbl)
          = Sqlite (snd (sqlDeleteNotInTop MAX_ENTRIES (sqlUpsert (testTerm i) now now now ?tbl)))"
    using acc by (simp add: recordSearch_Sqlite sqliteText_testTerm [OF i])
  also have "sqlUpsert (testTerm i) now now now ?tbl
               = \<lparr>tbl_rows = rows @
                       [\<lparr>id_col = Suc s, term_col = testTerm i, score_col = 1,
                         last_searched = now, created_at = now\<rparr>],
                  tbl_seq = Suc s\<rparr>"
    unfolding sqlUpsert_fresh [OF f] mx by simp
  also have "snd (sqlDeleteNotInTop MAX_ENTRIES \<dots>) = \<dots>"
    using room by (intro sqlDeleteNotInTop_small) (simp add: MAX_ENTRIES_def)
  finally show ?thesis .
qed

lemma record_fresh_full:
  assumes i: "i < 100"
    and fresh: "testTerm i \<notin> set (map term_col (r # rest))"
    and ids: "\<forall>x\<in>set (map id_col (r # rest)). x \<le> s"
    and len: "length rest = 49"
    and id: "id_col r \<notin> id_col ` set rest"
    and ord: "sorted_wrt older (r # rest)"
    and old: "\<forall>x\<in>set (r # rest). score_col x = 1 \<and> last_searched x < now"
  shows "recordSearch now (testTerm i) (Sqlite \<lparr>tbl_rows = r # rest, tbl_seq = s\<rparr>)
           = Sqlite \<lparr>tbl_rows = rest @
                       [\<lparr>id_col = Suc s, term_col = testTerm i, score_col = 1,
                         last_searched = now, created_at = now\<rparr>],
                     tbl_seq = Suc s\<rparr>"
proof -
  let ?tbl = "\<lparr>tbl_rows = r # rest, tbl_seq = s\<rparr>"
  let ?new = "\<lparr>id_col = Suc s, term_col = testTerm i, score_col = 1,
                last_searched = now, created_at = now\<rparr>"
  let ?up = "\<lparr>tbl_rows = (r # rest) @ [?new], tbl_seq = Suc s\<rparr>"
  have f: "testTerm i \<notin> set (map term_col (tbl_rows ?tbl))"
    using fresh by simp
  have mx: "fold max (map id_col (tbl_rows ?tbl)) (tbl_seq ?tbl) = s"
    using fold_max_bounded [OF ids] by simp
  have acc: "trim (testTerm i) \<noteq> []" "\<not> isForbidden (testTerm i)"
    using accepted_testTerm_trim [of i] testTerm_allowed [OF i] by simp_all
  have "recordSearch now (testTerm i) (Sqlite ?tbl)
          = Sqlite (snd (sqlDeleteNotInTop MAX_ENTRIES (sqlUpsert (testTerm i) now now now ?tbl)))"
    using acc by (simp add: recordSearch_Sqlite sqliteText_testTerm [OF i])
  also have "sqlUpsert (testTerm i) now now now ?tbl = ?up"
    unfolding sqlUpsert_fresh [OF f] mx by simp
  also have "snd (sqlDeleteNotInTop MAX_ENTRIES ?up) = ?up\<lparr>tbl_rows := rest @ [?new]\<rparr>"
  proof (rule cleanup_drops_oldest)
    show "tbl_rows ?up = r # (rest @ [?new])"
      by simp
    show "length (rest @ [?new]) = 50"
      using len by simp
    have "id_col r \<le> s"
      using ids by simp
    then show "id_col r \<notin> id_col ` set (rest @ [?new])"
      using id by simp
    have "\<forall>x\<in>set (r # rest). older x ?new"
      using old by (simp add: older_def)
    then have "sorted_wrt older ((r # rest) @ [?new])"
      using ord by (simp only: sorted_wrt_append) simp
    then show "sorted_wrt older (r # (rest @ [?new]))"
      by simp
  qed
  finally show ?thesis
    by simp
qed

lemma set_testRows: "x \<in> set (map testRow [a..<b]) \<Longrightarrow> \<exists>i. a \<le> i \<and> i < b \<and> x = testRow i"
  by auto

lemma sqlite_distinct_state:
  "n \<le> 50 \<Longrightarrow>
   recordEach (distinctCalls n) (Sqlite emptyTable)
     = Sqlite \<lparr>tbl_rows = map testRow [0..<n], tbl_seq = n\<rparr>"
proof (induction n)
  case 0
  show ?case by (simp add: distinctCalls_def recordEach_def emptyTable_def)
next
  case (Suc n)
  have n: "n < 100" using Suc.prems by simp
  have st: "recordEach (distinctCalls n) (Sqlite emptyTable)
              = Sqlite \<lparr>tbl_rows = map testRow [0..<n], tbl_seq = n\<rparr>"
    using Suc by simp
  have "testTerm n \<notin> set (map testTerm [0..<n])"
    using n by (intro testTerm_fresh) auto
  then have fresh: "testTerm n \<notin> set (map term_col (map testRow [0..<n]))"
    unfolding terms_testRows .
  have ids: "\<forall>x\<in>set (map id_col (map testRow [0..<n])). x \<le> n"
    by (auto simp add: testRow_def)
  have room: "length (map testRow [0..<n]) < 50"
    using Suc.prems by simp
  have "recordSearch (int n) (testTerm n) (Sqlite \<lparr>tbl_rows = map testRow [0..<n], tbl_seq = n\<rparr>)
          = Sqlite \<lparr>tbl_rows = map testRow [0..<n] @ [testRow n], tbl_seq = Suc n\<rparr>"
    unfolding record_fresh_small [OF n fresh ids room] by (simp add: testRow_def)
  then show ?case
    unfolding distinctCalls_Suc recordEach_snoc st by simp
qed

lemma distinctCalls_51: "distinctCalls 51 = distinctCalls 50 @ [(testTerm 50, 50)]"
  using distinctCalls_Suc [of 50] by simp

lemma upt_51: "[0..<51] = [0..<50] @ [50]"
  using upt_Suc_append [of 0 50] by simp

lemma laterRows_Cons: "a < 51 \<Longrightarrow> laterRows a = testRow a # laterRows (Suc a)"
  unfolding laterRows_def by (simp only: upt_conv_Cons list.map)

lemma length_laterRows: "length (laterRows a) = 51 - a"
  unfolding laterRows_def by (simp only: length_map length_upt)

lemma sorted_laterRows: "sorted_wrt older (laterRows a)"
  unfolding laterRows_def by (rule sorted_testRows)

lemma terms_laterRows: "map term_col (laterRows a) = map testTerm [a..<51]"
  unfolding laterRows_def by (rule terms_testRows)

lemma set_laterRows: "x \<in> set (laterRows a) \<Longrightarrow> \<exists>i. a \<le> i \<and> i < 51 \<and> x = testRow i"
  unfolding laterRows_def by (rule set_testRows)

lemma id_laterRows: "k < a \<Longrightarrow> id_col (testRow k) \<notin> id_col ` set (laterRows a)"
  unfolding laterRows_def by (rule id_testRow_earlier)




lemma sqlite_state_50:
  "recordEach (distinctCalls 50) (Sqlite emptyTable)
     = Sqlite \<lparr>tbl_rows = map testRow [0..<50], tbl_seq = 50\<rparr>"
  by (rule sqlite_distinct_state) simp

lemma sqlite_state_51:
  "recordEach (distinctCalls 51) (Sqlite emptyTable)
     = Sqlite \<lparr>tbl_rows = laterRows (Suc 0), tbl_seq = 51\<rparr>"
proof -
  let ?rest = "map testRow [Suc 0..<50]"
  have u: "[0..<50] = 0 # [Suc 0..<50]"
    by (rule upt_conv_Cons) simp
  have c0: "map testRow [0..<50] = testRow 0 # ?rest"
    by (simp only: u list.map)
  have i: "(50::nat) < 100" by simp
  have "testTerm 50 \<notin> set (map testTerm [0..<50])"
    by (intro testTerm_fresh) auto
  then have "testTerm 50 \<notin> set (map term_col (map testRow [0..<50]))"
    unfolding terms_testRows .
  then have fresh: "testTerm 50 \<notin> set (map term_col (testRow 0 # ?rest))"
    unfolding c0 .
  have "\<forall>x\<in>set (map id_col (map testRow [0..<50])). x \<le> 50"
    by (auto simp add: testRow_def)
  then have ids: "\<forall>x\<in>set (map id_col (testRow 0 # ?rest)). x \<le> 50"
    unfolding c0 .
  have len: "length ?rest = 49"
    by (simp only: length_map length_upt)
  have id: "id_col (testRow 0) \<notin> id_col ` set ?rest"
    by (rule id_testRow_earlier) simp
  have "sorted_wrt older (map testRow [0..<50])"
    by (rule sorted_testRows)
  then have ord: "sorted_wrt older (testRow 0 # ?rest)"
    unfolding c0 .
  have "\<forall>x\<in>set (map testRow [0..<50]). score_col x = 1 \<and> last_searched x < 50"
    by (auto simp add: testRow_def)
  then have old: "\<forall>x\<in>set (testRow 0 # ?rest). score_col x = 1 \<and> last_searched x < 50"
    unfolding c0 .
  have step: "recordSearch 50 (testTerm 50) (Sqlite \<lparr>tbl_rows = testRow 0 # ?rest, tbl_seq = 50\<rparr>)
          = Sqlite \<lparr>tbl_rows = ?rest @
                       [\<lparr>id_col = Suc 50, term_col = testTerm 50, score_col = 1,
                         last_searched = 50, created_at = 50\<rparr>],
                     tbl_seq = Suc 50\<rparr>"
    by (rule record_fresh_full [OF i fresh ids len id ord old])
  have new: "\<lparr>id_col = 51, term_col = testTerm 50, score_col = 1,
               last_searched = 50, created_at = 50\<rparr> = testRow 50"
    by (simp add: testRow_def)
  have "[Suc 0..<Suc 50] = [Suc 0..<50] @ [50]"
    by (rule upt_Suc_append) simp
  then have "[Suc 0..<51] = [Suc 0..<50] @ [50]"
    by simp
  then have rows: "?rest @ [testRow 50] = laterRows (Suc 0)"
    unfolding laterRows_def by (simp only: map_append list.map)
  have seq: "Suc 50 = (51::nat)"
    by simp
  have "recordSearch 50 (testTerm 50) (Sqlite \<lparr>tbl_rows = testRow 0 # ?rest, tbl_seq = 50\<rparr>)
          = Sqlite \<lparr>tbl_rows = laterRows (Suc 0), tbl_seq = 51\<rparr>"
    using step by (simp only: new rows seq)
  then show ?thesis
    unfolding distinctCalls_51 recordEach_snoc sqlite_state_50 c0 .
qed

lemma sqlite_state_52:
  "recordSearch 51 (testTerm 0) (recordEach (distinctCalls 51) (Sqlite emptyTable))
     = Sqlite \<lparr>tbl_rows = laterRows (Suc (Suc 0)) @
                  [\<lparr>id_col = 52, term_col = testTerm 0, score_col = 1, last_searched = 51,
                    created_at = 51\<rparr>],
               tbl_seq = 52\<rparr>"
proof -
  let ?rest = "laterRows (Suc (Suc 0))"
  have c1: "laterRows (Suc 0) = testRow (Suc 0) # ?rest"
    by (rule laterRows_Cons) simp
  have i: "(0::nat) < 100" by simp
  have "testTerm 0 \<notin> set (map testTerm [Suc 0..<51])"
    by (intro testTerm_fresh) auto
  then have "testTerm 0 \<notin> set (map term_col (laterRows (Suc 0)))"
    unfolding terms_laterRows .
  then have fresh: "testTerm 0 \<notin> set (map term_col (testRow (Suc 0) # ?rest))"
    unfolding c1 .
  have "\<forall>x\<in>set (map id_col (laterRows (Suc 0))). x \<le> 51"
    using set_laterRows [of _ "Suc 0"] by (fastforce simp add: testRow_def)
  then have ids: "\<forall>x\<in>set (map id_col (testRow (Suc 0) # ?rest)). x \<le> 51"
    unfolding c1 .
  have len: "length ?rest = 49"
    by (simp only: length_laterRows)
  have id: "id_col (testRow (Suc 0)) \<notin> id_col ` set ?rest"
    by (rule id_laterRows) simp
  have "sorted_wrt older (laterRows (Suc 0))"
    by (rule sorted_laterRows)
  then have ord: "sorted_wrt older (testRow (Suc 0) # ?rest)"
    unfolding c1 .
  have "\<forall>x\<in>set (laterRows (Suc 0)). score_col x = 1 \<and> last_searched x < 51"
    using set_laterRows [of _ "Suc 0"] by (fastforce simp add: testRow_def)
  then have old: "\<forall>x\<in>set (testRow (Suc 0) # ?rest). score_col x = 1 \<and> last_searched x < 51"
    unfolding c1 .
  have step: "recordSearch 51 (testTerm 0)
                (Sqlite \<lparr>tbl_rows = testRow (Suc 0) # ?rest, tbl_seq = 51\<rparr>)
          = Sqlite \<lparr>tbl_rows = ?rest @
                       [\<lparr>id_col = Suc 51, term_col = testTerm 0, score_col = 1,
                         last_searched = 51, created_at = 51\<rparr>],
                     tbl_seq = Suc 51\<rparr>"
    by (rule record_fresh_full [OF i fresh ids len id ord old])
  have seq: "Suc 51 = (52::nat)"
    by simp
  show ?thesis
    unfolding sqlite_state_51 c1 using step unfolding seq .
qed

lemma sqlite_top_52:
  "getHotSearches 1 (recordSearch 51 (testTerm 0) (recordEach (distinctCalls 51) (Sqlite emptyTable)))
     = [\<lparr>term' = testTerm 0, score = 1, lastSearched = 51, createdAt = 51\<rparr>]"
proof -
  let ?new = "\<lparr>id_col = 52, term_col = testTerm 0, score_col = 1, last_searched = 51,
                created_at = 51\<rparr>"
  let ?rest = "laterRows (Suc (Suc 0))"
  let ?d = "Sqlite \<lparr>tbl_rows = ?rest @ [?new], tbl_seq = 52\<rparr>"
  have a: "sorted_wrt older ?rest"
    by (rule sorted_laterRows)
  have b: "\<forall>x\<in>set ?rest. older x ?new"
    using set_laterRows [of _ "Suc (Suc 0)"] by (fastforce simp add: older_def testRow_def)
  have "sorted_wrt older (?rest @ [?new])"
    using a b by (simp only: sorted_wrt_append) simp
  then have "orderBy (?rest @ [?new]) = rev (?rest @ [?new])"
    by (rule orderBy_newest_first)
  then have r: "ranking ?d = rowItem ?new # map rowItem (rev ?rest)"
    by (simp add: ranking_def)
  have "(0::int) \<le> 1" by simp
  then have "getHotSearches 1 ?d = take (nat (min 1 MAX_ENTRIES)) (ranking ?d)"
    by (rule getHotSearches_nonneg)
  also have "\<dots> = [rowItem ?new]"
    unfolding r by (simp add: MAX_ENTRIES_def)
  finally show ?thesis
    unfolding sqlite_state_52 by (simp add: rowItem_def)
qed

lemma laterEntries_Cons: "a < 51 \<Longrightarrow> laterEntries a = testEntry a # laterEntries (Suc a)"
  unfolding laterEntries_def by (simp only: upt_conv_Cons list.map)

lemma set_laterEntries:
  "e \<in> set (laterEntries a) \<Longrightarrow> \<exists>i. a \<le> i \<and> i < 51 \<and> e = testEntry i"
  unfolding laterEntries_def by auto

lemma memory_state_51: "recordEach (distinctCalls 51) (Memory []) = Memory (laterEntries 0)"
  unfolding laterEntries_def by (rule memory_distinct_state) simp

lemma memory_state_52:
  "recordSearch 51 (testTerm 0) (recordEach (distinctCalls 51) (Memory []))
     = Memory ((testTerm 0, \<lparr>term' = testTerm 0, score = 2, lastSearched = 51, createdAt = 0\<rparr>)
               # laterEntries (Suc 0))"
proof -
  have c0: "laterEntries 0 = testEntry 0 # laterEntries (Suc 0)"
    by (rule laterEntries_Cons) simp
  have acc: "trim (testTerm 0) \<noteq> []" "\<not> isForbidden (testTerm 0)"
    using accepted_testTerm_trim [of 0] testTerm_allowed [of 0] by simp_all
  have "insertRun (testTerm 0) 51 51 51 (testEntry 0 # laterEntries (Suc 0))
          = (testTerm 0, \<lparr>term' = testTerm 0, score = 2, lastSearched = 51, createdAt = 0\<rparr>)
            # laterEntries (Suc 0)"
    by (simp add: insertRun_def testEntry_def)
  then show ?thesis
    unfolding memory_state_51 c0 using acc by (simp add: recordSearch_Memory)
qed

lemma set_sortBy: "set (sortBy cmp xs) = set xs"
  by (induction xs) (simp_all add: sortBy_def set_insertBy)

lemma take_insertBy_first:
  "(\<forall>y\<in>set ys. cmp x y \<le> 0) \<Longrightarrow> take (Suc 0) (insertBy cmp x ys) = [x]"
  by (cases ys) simp_all

lemma memory_top_52:
  "getHotSearches 1 (recordSearch 51 (testTerm 0) (recordEach (distinctCalls 51) (Memory [])))
     = [\<lparr>term' = testTerm 0, score = 2, lastSearched = 51, createdAt = 0\<rparr>]"
proof -
  let ?top = "\<lparr>term' = testTerm 0, score = 2, lastSearched = 51, createdAt = 0\<rparr>"
  let ?rest = "map snd (laterEntries (Suc 0))"
  let ?d = "Memory ((testTerm 0, ?top) # laterEntries (Suc 0))"
  have "\<forall>y\<in>set ?rest. score y = 1"
    using set_laterEntries [of _ "Suc 0"] by (fastforce simp add: testEntry_def)
  then have "\<forall>y\<in>set (sortBy compareItems ?rest). compareItems ?top y \<le> 0"
    by (simp add: set_sortBy compareItems_def)
  then have t: "take (Suc 0) (insertBy compareItems ?top (sortBy compareItems ?rest)) = [?top]"
    by (rule take_insertBy_first)
  have r: "ranking ?d = insertBy compareItems ?top (sortBy compareItems ?rest)"
    by (simp add: ranking_def sortBy_def)
  have "(0::int) \<le> 1" by simp
  then have "getHotSearches 1 ?d = take (nat (min 1 MAX_ENTRIES)) (ranking ?d)"
    by (rule getHotSearches_nonneg)
  also have "nat (min 1 MAX_ENTRIES) = Suc 0"
    by (simp add: MAX_ENTRIES_def)
  finally show ?thesis
    unfolding memory_state_52 r t .
qed

text \<open>
  Claim C2 at its failing input. Both backends are given the same calls: the 51 distinct
  terms, one call each, and then the first term again. The table evicted that term at the
  51st call, so it is inserted anew with score 1; the memory fallback never evicts, so
  there the same term reaches score 2 and keeps its creation time. \<^verbatim>\<open>getHotSearches(1)\<close>
  then returns different records.
\<close>

theorem backends_diverge:
  "getHotSearches 1
     (recordSearch 51 (testTerm 0) (recordEach (distinctCalls 51) (Sqlite emptyTable)))
     = [\<lparr>term' = testTerm 0, score = 1, lastSearched = 51, createdAt = 51\<rparr>]
   \<and> getHotSearches 1
     (recordSearch 51 (testTerm 0) (recordEach (distinctCalls 51) (Memory [])))
     = [\<lparr>term' = testTerm 0, score = 2, lastSearched = 51, createdAt = 0\<rparr>]"
  using sqlite_top_52 memory_top_52 by (rule conjI)

theorem backends_diverge_witness:
  "getHotSearches 1
     (recordSearch 51 (testTerm 0) (recordEach (distinctCalls 51) (Sqlite emptyTable)))
   \<noteq> getHotSearches 1
     (recordSearch 51 (testTerm 0) (recordEach (distinctCalls 51) (Memory [])))"
proof -
  have "[\<lparr>term' = testTerm 0, score = 1, lastSearched = 51, createdAt = 51\<rparr>]
          \<noteq> [\<lparr>term' = testTerm 0, score = 2, lastSearched = 51, createdAt = (0::int)\<rparr>]"
    by simp
  then show ?thesis
    unfolding backends_diverge [THEN conjunct1] backends_diverge [THEN conjunct2] .
qed

end
